theory Spec2Isabelle
  imports Main "HOL-Library.Word" "HOL-Library.Sublist"
begin

unbundle bit_operations_syntax

section \<open>Bytes, faults and status values\<close>

type_synonym byte = "8 word"
type_synonym bytes = "byte list"

text \<open>
  A C++ \<open>int\<close> is modelled by \<^typ>\<open>int\<close>; where the code converts it to an unsigned
  32-bit value (\<open>PutVarint32(dst, level)\<close>, \<open>EncodeFixed32(p, n)\<close>) the conversion
  \<open>word_of_int\<close> is written out, and where it reads one back (\<open>Count\<close>) \<open>sint\<close> is.
  \<open>uint32_t\<close> and \<open>uint64_t\<close> are \<^typ>\<open>32 word\<close> and \<^typ>\<open>64 word\<close>.

  A run that stops is a result of its own, the \<open>Inl\<close> side of \<open>fault + 'a\<close>: a false
  assertion, an index outside an array, the read of a variable that was never written, and
  a call through a null pointer.  An \<open>assert(c)\<close> whose argument has no effect is the
  fault \<open>AssertionFailed\<close> when \<open>c\<close> is false.  Two assertions of
  \<open>VersionEdit::DecodeFrom\<close> have arguments that read the input; whether they are
  evaluated depends on \<open>NDEBUG\<close>, a parameter of the model (see \<open>externals\<close>).
\<close>

datatype fault = AssertionFailed | OutOfBounds | UninitializedRead | NullDereference

datatype Status = OK | Corruption string string

definition bindF :: "fault + 'a \<Rightarrow> ('a \<Rightarrow> fault + 'b) \<Rightarrow> fault + 'b" where
  "bindF m f = (case m of Inl e \<Rightarrow> Inl e | Inr x \<Rightarrow> f x)"

section \<open>util/coding: fixed-width, varint and length-prefixed encodings\<close>

text \<open>
  Modelled from the spec: \<open>util/coding.h\<close> and \<open>util/coding.cc\<close> are not under
  \<open>src/\<close>.  The spec fixes the shapes (``sequence: fixed64, count: fixed32'',
  ``\<open>varstring = varint(len) bytes[len]\<close>'', ``scalars are varint- or fixed-width-encoded'').
  Fixed-width values are little-endian.  A varint carries seven payload bits per byte, low
  group first, with bit 7 set on every byte but the last; \<open>GetVarint32\<close> reads at most
  five bytes and \<open>GetVarint64\<close> at most ten, keeps the low 32 (64) bits of what it read
  and leaves its input untouched when it fails.
\<close>

definition byte_of :: "nat \<Rightarrow> byte" where
  "byte_of n = word_of_nat n"

primrec le_bytes :: "nat \<Rightarrow> nat \<Rightarrow> bytes" where
  "le_bytes 0 v = []"
| "le_bytes (Suc k) v = byte_of (v mod 256) # le_bytes k (v div 256)"

primrec le_value :: "bytes \<Rightarrow> nat" where
  "le_value [] = 0"
| "le_value (b # bs) = unat b + 256 * le_value bs"

definition EncodeFixed32 :: "32 word \<Rightarrow> bytes" where
  "EncodeFixed32 v = le_bytes 4 (unat v)"

definition DecodeFixed32 :: "bytes \<Rightarrow> 32 word" where
  "DecodeFixed32 p = word_of_nat (le_value (take 4 p))"

definition EncodeFixed64 :: "64 word \<Rightarrow> bytes" where
  "EncodeFixed64 v = le_bytes 8 (unat v)"

definition DecodeFixed64 :: "bytes \<Rightarrow> 64 word" where
  "DecodeFixed64 p = word_of_nat (le_value (take 8 p))"

fun varint_enc :: "nat \<Rightarrow> bytes" where
  "varint_enc n = (if n < 128 then [byte_of n]
                   else byte_of (128 + n mod 128) # varint_enc (n div 128))"

declare varint_enc.simps [simp del]

primrec get_varint :: "nat \<Rightarrow> nat \<Rightarrow> bytes \<Rightarrow> (nat \<times> bytes) option" where
  "get_varint 0 shift input = None"
| "get_varint (Suc k) shift input =
     (case input of
        [] \<Rightarrow> None
      | b # p \<Rightarrow>
          if 128 \<le> unat b
          then (case get_varint k (shift + 7) p of
                  None \<Rightarrow> None
                | Some (v, r) \<Rightarrow> Some ((unat b mod 128) * 2 ^ shift + v, r))
          else Some (unat b * 2 ^ shift, p))"

definition Varint32 :: "32 word \<Rightarrow> bytes" where
  "Varint32 v = varint_enc (unat v)"

definition Varint64 :: "64 word \<Rightarrow> bytes" where
  "Varint64 v = varint_enc (unat v)"

definition LengthPrefixed :: "bytes \<Rightarrow> bytes" where
  "LengthPrefixed s = Varint32 (word_of_nat (length s)) @ s"

definition PutVarint32 :: "bytes \<Rightarrow> 32 word \<Rightarrow> bytes" where
  "PutVarint32 dst v = dst @ Varint32 v"

definition PutVarint64 :: "bytes \<Rightarrow> 64 word \<Rightarrow> bytes" where
  "PutVarint64 dst v = dst @ Varint64 v"

definition PutLengthPrefixedSlice :: "bytes \<Rightarrow> bytes \<Rightarrow> bytes" where
  "PutLengthPrefixedSlice dst s = dst @ LengthPrefixed s"

definition GetVarint32 :: "bytes \<Rightarrow> (32 word \<times> bytes) option" where
  "GetVarint32 input =
     (case get_varint 5 0 input of None \<Rightarrow> None | Some (v, r) \<Rightarrow> Some (word_of_nat v, r))"

definition GetVarint64 :: "bytes \<Rightarrow> (64 word \<times> bytes) option" where
  "GetVarint64 input =
     (case get_varint 10 0 input of None \<Rightarrow> None | Some (v, r) \<Rightarrow> Some (word_of_nat v, r))"

definition GetLengthPrefixedSlice :: "bytes \<Rightarrow> (bytes \<times> bytes) option" where
  "GetLengthPrefixedSlice input =
     (case GetVarint32 input of
        None \<Rightarrow> None
      | Some (len, r) \<Rightarrow>
          if unat len \<le> length r then Some (take (unat len) r, drop (unat len) r) else None)"

section \<open>What the sources take from files that are not under src/\<close>

text \<open>
  \<open>db/dbformat.h\<close> and \<open>db/murmurhash3.h\<close> are not under \<open>src/\<close>, so what the code
  takes from them is a parameter of the model: the level count \<open>config::kNumLevels\<close>, the
  three \<open>ValueType\<close> enumerators as the \<open>char\<close> they are written as, the success flag
  of \<open>InternalKey::DecodeFrom\<close> as a predicate on the bytes it is given, and the hash
  function \<open>MurmurHash3_x86_32\<close> (key, seed).  An \<open>InternalKey\<close> is its encoded
  bytes: \<open>Encode\<close> returns them and \<open>DecodeFrom\<close> stores what it is given.
  Whether the sources are compiled with \<open>NDEBUG\<close> defined is decided by the build, which
  is not under \<open>src/\<close> either: with \<open>NDEBUG\<close> the argument of an \<open>assert\<close> is not
  evaluated.
\<close>

record externals =
  kNumLevels :: nat
  kTypeDeletion :: byte
  kTypeValue :: byte
  kTypeFence :: byte
  InternalKey_valid :: "bytes \<Rightarrow> bool"
  NDEBUG :: bool
  MurmurHash3_x86_32 :: "bytes \<Rightarrow> 32 word \<Rightarrow> 32 word"

section \<open>db/write\_batch.cc\<close>

subsection \<open>The batch and its header\<close>

record WriteBatch =
  rep :: bytes

definition kHeader :: nat where
  "kHeader = 12"

definition Clear :: "WriteBatch" where
  "Clear = \<lparr>rep = replicate kHeader 0\<rparr>"

definition ApproximateSize :: "WriteBatch \<Rightarrow> nat" where
  "ApproximateSize b = length (rep b)"

definition Count :: "WriteBatch \<Rightarrow> fault + int" where
  "Count b =
     (if length (rep b) < 12 then Inl OutOfBounds
      else Inr (sint (DecodeFixed32 (drop 8 (rep b)))))"

definition SetCount :: "WriteBatch \<Rightarrow> int \<Rightarrow> fault + WriteBatch" where
  "SetCount b n =
     (if length (rep b) < 12 then Inl OutOfBounds
      else Inr (b\<lparr>rep := take 8 (rep b) @ EncodeFixed32 (word_of_int n) @ drop 12 (rep b)\<rparr>))"

definition Sequence :: "WriteBatch \<Rightarrow> fault + 64 word" where
  "Sequence b =
     (if length (rep b) < 8 then Inl OutOfBounds else Inr (DecodeFixed64 (rep b)))"

definition SetSequence :: "WriteBatch \<Rightarrow> 64 word \<Rightarrow> fault + WriteBatch" where
  "SetSequence b seq =
     (if length (rep b) < 8 then Inl OutOfBounds
      else Inr (b\<lparr>rep := EncodeFixed64 seq @ drop 8 (rep b)\<rparr>))"

definition Put :: "externals \<Rightarrow> WriteBatch \<Rightarrow> bytes \<Rightarrow> bytes \<Rightarrow> fault + WriteBatch" where
  "Put X b key val =
     bindF (Count b) (\<lambda>n. bindF (SetCount b (n + 1)) (\<lambda>b1.
       Inr (b1\<lparr>rep := PutLengthPrefixedSlice
                          (PutLengthPrefixedSlice (rep b1 @ [kTypeValue X]) key) val\<rparr>)))"

definition PutFence :: "externals \<Rightarrow> WriteBatch \<Rightarrow> bytes \<Rightarrow> int \<Rightarrow> fault + WriteBatch" where
  "PutFence X b key level =
     bindF (Count b) (\<lambda>n. bindF (SetCount b (n + 1)) (\<lambda>b1.
       Inr (b1\<lparr>rep := PutVarint32
                          (PutLengthPrefixedSlice (rep b1 @ [kTypeFence X]) key)
                          (word_of_int level)\<rparr>)))"

definition Delete :: "externals \<Rightarrow> WriteBatch \<Rightarrow> bytes \<Rightarrow> fault + WriteBatch" where
  "Delete X b key =
     bindF (Count b) (\<lambda>n. bindF (SetCount b (n + 1)) (\<lambda>b1.
       Inr (b1\<lparr>rep := PutLengthPrefixedSlice (rep b1 @ [kTypeDeletion X]) key\<rparr>)))"

definition SetContents :: "bytes \<Rightarrow> fault + WriteBatch" where
  "SetContents contents =
     (if kHeader \<le> length contents then Inr \<lparr>rep = contents\<rparr> else Inl AssertionFailed)"

definition Append :: "WriteBatch \<Rightarrow> WriteBatch \<Rightarrow> fault + WriteBatch" where
  "Append dst src =
     bindF (Count dst) (\<lambda>n. bindF (Count src) (\<lambda>m. bindF (SetCount dst (n + m)) (\<lambda>d1.
       if kHeader \<le> length (rep src)
       then Inr (d1\<lparr>rep := rep d1 @ drop kHeader (rep src)\<rparr>)
       else Inl AssertionFailed)))"

subsection \<open>Replay\<close>

text \<open>
  A \<open>WriteBatch::Handler\<close> over a state \<open>'s\<close>: the three virtual methods, each of
  which may stop the program.
\<close>

record 's Handler =
  on_Put :: "bytes \<Rightarrow> bytes \<Rightarrow> 's \<Rightarrow> fault + 's"
  on_Delete :: "bytes \<Rightarrow> 's \<Rightarrow> fault + 's"
  on_HandleFence :: "bytes \<Rightarrow> 32 word \<Rightarrow> 's \<Rightarrow> fault + 's"

text \<open>
  The \<open>while (!input.empty())\<close> loop of \<open>Iterate\<close>.  It returns the status of an
  early \<open>return\<close> (or \<open>None\<close> when the input ran out), \<open>found\<close>, and the handler's
  state.
\<close>

function Iterate_loop ::
  "externals \<Rightarrow> 's Handler \<Rightarrow> bytes \<Rightarrow> int \<Rightarrow> 's \<Rightarrow> fault + (Status option \<times> int \<times> 's)" where
  "Iterate_loop X h input found s =
     (case input of
        [] \<Rightarrow> Inr (None, found, s)
      | tag # input1 \<Rightarrow>
          if tag = kTypeValue X then
            (case GetLengthPrefixedSlice input1 of
               None \<Rightarrow> Inr (Some (Corruption ''bad WriteBatch Put'' []), found + 1, s)
             | Some (key, input2) \<Rightarrow>
                 (case GetLengthPrefixedSlice input2 of
                    None \<Rightarrow> Inr (Some (Corruption ''bad WriteBatch Put'' []), found + 1, s)
                  | Some (val, input3) \<Rightarrow>
                      (case on_Put h key val s of
                         Inl e \<Rightarrow> Inl e
                       | Inr s' \<Rightarrow> Iterate_loop X h input3 (found + 1) s')))
          else if tag = kTypeDeletion X then
            (case GetLengthPrefixedSlice input1 of
               None \<Rightarrow> Inr (Some (Corruption ''bad WriteBatch Delete'' []), found + 1, s)
             | Some (key, input2) \<Rightarrow>
                 (case on_Delete h key s of
                    Inl e \<Rightarrow> Inl e
                  | Inr s' \<Rightarrow> Iterate_loop X h input2 (found + 1) s'))
          else if tag = kTypeFence X then
            (case GetLengthPrefixedSlice input1 of
               None \<Rightarrow> Inr (Some (Corruption ''unknown WriteBatch tag'' []), found + 1, s)
             | Some (key, input2) \<Rightarrow>
                 (case GetVarint32 input2 of
                    None \<Rightarrow> Inr (Some (Corruption ''unknown WriteBatch tag'' []), found + 1, s)
                  | Some (level, input3) \<Rightarrow>
                      (case on_HandleFence h key level s of
                         Inl e \<Rightarrow> Inl e
                       | Inr s' \<Rightarrow> Iterate_loop X h input3 (found + 1) s')))
          else Inr (Some (Corruption ''unknown WriteBatch tag'' []), found + 1, s))"
  by pat_completeness auto

lemma unat_byte_of: "n < 256 \<Longrightarrow> unat (byte_of n) = n"
  by (simp add: byte_of_def unat_of_nat)

lemma get_varint_length:
  "get_varint k s input = Some (v, r) \<Longrightarrow> length r < length input"
proof (induction k arbitrary: s input v)
  case 0
  then show ?case by simp
next
  case (Suc k)
  then show ?case
    by (fastforce split: list.splits if_splits option.splits)
qed

lemma GetVarint32_length:
  "GetVarint32 input = Some (v, r) \<Longrightarrow> length r < length input"
  by (auto simp: GetVarint32_def split: option.splits dest: get_varint_length)

lemma GetVarint64_length:
  "GetVarint64 input = Some (v, r) \<Longrightarrow> length r < length input"
  by (auto simp: GetVarint64_def split: option.splits dest: get_varint_length)

lemma GetLengthPrefixedSlice_length:
  "GetLengthPrefixedSlice input = Some (s, r) \<Longrightarrow> length r < length input"
  by (auto simp: GetLengthPrefixedSlice_def split: option.splits if_splits
           dest!: GetVarint32_length)

termination Iterate_loop
  by (relation "measure (\<lambda>(X, h, input, found, s). length input)")
     (auto dest!: GetLengthPrefixedSlice_length GetVarint32_length)

declare Iterate_loop.simps [simp del]

definition Iterate :: "externals \<Rightarrow> 's Handler \<Rightarrow> WriteBatch \<Rightarrow> 's \<Rightarrow> fault + (Status \<times> 's)" where
  "Iterate X h b s =
     (if length (rep b) < kHeader
      then Inr (Corruption ''malformed WriteBatch (too small)'' [], s)
      else
        (case Iterate_loop X h (drop kHeader (rep b)) 0 s of
           Inl e \<Rightarrow> Inl e
         | Inr (Some st, found, s') \<Rightarrow> Inr (st, s')
         | Inr (None, found, s') \<Rightarrow>
             bindF (Count b) (\<lambda>n.
               if found \<noteq> n then Inr (Corruption ''WriteBatch has wrong count'' [], s')
               else Inr (OK, s'))))"


subsection \<open>MemTableInserter\<close>

text \<open>
  Modelled from the spec: the mutable table (\<open>db/memtable.h\<close>) is not under \<open>src/\<close>;
  it ``exposes \<open>Add(sequence, recordKind, key, value)\<close>''.  The model keeps the calls
  it received, in order.
\<close>

type_synonym MemTable = "(64 word \<times> byte \<times> bytes \<times> bytes) list"

definition MemTable_Add :: "MemTable \<Rightarrow> 64 word \<Rightarrow> byte \<Rightarrow> bytes \<Rightarrow> bytes \<Rightarrow> MemTable" where
  "MemTable_Add m seq ty key val = m @ [(seq, ty, key, val)]"

record MemTableInserter =
  sequence :: "64 word"
  mem :: MemTable

definition MemTableInserter_Put ::
  "externals \<Rightarrow> bytes \<Rightarrow> bytes \<Rightarrow> MemTableInserter \<Rightarrow> fault + MemTableInserter" where
  "MemTableInserter_Put X key val s =
     Inr (s\<lparr>mem := MemTable_Add (mem s) (sequence s) (kTypeValue X) key val,
             sequence := sequence s + 1\<rparr>)"

definition MemTableInserter_Delete ::
  "externals \<Rightarrow> bytes \<Rightarrow> MemTableInserter \<Rightarrow> fault + MemTableInserter" where
  "MemTableInserter_Delete X key s =
     Inr (s\<lparr>mem := MemTable_Add (mem s) (sequence s) (kTypeDeletion X) key [],
             sequence := sequence s + 1\<rparr>)"

text \<open>
  \<open>HandleFence\<close> builds a \<open>FenceMetaData\<close> on the heap and drops the pointer; what
  is left of the call is the assertion and the increment.
\<close>

definition MemTableInserter_HandleFence ::
  "externals \<Rightarrow> bytes \<Rightarrow> 32 word \<Rightarrow> MemTableInserter \<Rightarrow> fault + MemTableInserter" where
  "MemTableInserter_HandleFence X key lvl s =
     (if unat lvl < kNumLevels X then Inr (s\<lparr>sequence := sequence s + 1\<rparr>)
      else Inl AssertionFailed)"

definition MemTableInserter_Handler :: "externals \<Rightarrow> MemTableInserter Handler" where
  "MemTableInserter_Handler X =
     \<lparr>on_Put = MemTableInserter_Put X,
      on_Delete = MemTableInserter_Delete X,
      on_HandleFence = MemTableInserter_HandleFence X\<rparr>"

definition InsertInto ::
  "externals \<Rightarrow> WriteBatch \<Rightarrow> MemTable \<Rightarrow> fault + (Status \<times> MemTableInserter)" where
  "InsertInto X b memtable =
     bindF (Sequence b) (\<lambda>seq.
       Iterate X (MemTableInserter_Handler X) b \<lparr>sequence = seq, mem = memtable\<rparr>)"

subsection \<open>FenceInserter\<close>

record FenceInserter =
  new_batch :: WriteBatch
  f_sequence :: "64 word"
  num_guards :: "nat \<Rightarrow> int"
  bit_mask :: "32 word"

definition top_level_bits :: "32 word" where
  "top_level_bits = 27"

definition bit_decrement :: "32 word" where
  "bit_decrement = 2"

definition set_mask :: "32 word \<Rightarrow> FenceInserter \<Rightarrow> fault + FenceInserter" where
  "set_mask num_bits s =
     (if 0 < num_bits \<and> num_bits < 32
      then Inr (s\<lparr>bit_mask := push_bit (unat num_bits) 1 - 1\<rparr>)
      else Inl AssertionFailed)"

text \<open>The inner loop \<open>for (unsigned j = i; j < config::kNumLevels; j++)\<close>.\<close>

function insert_from :: "externals \<Rightarrow> bytes \<Rightarrow> nat \<Rightarrow> FenceInserter \<Rightarrow> fault + FenceInserter" where
  "insert_from X key j s =
     (if j < kNumLevels X then
        (case PutFence X (new_batch s) key (int j) of
           Inl e \<Rightarrow> Inl e
         | Inr nb \<Rightarrow>
             insert_from X key (j + 1)
               (s\<lparr>new_batch := nb, num_guards := (num_guards s)(j := num_guards s j + 1)\<rparr>))
      else Inr s)"
  by pat_completeness auto
termination
  by (relation "measure (\<lambda>(X, key, j, s). kNumLevels X - j)") auto

declare insert_from.simps [simp del]

text \<open>The outer loop \<open>for (unsigned i = 0; i < config::kNumLevels; i++)\<close>.\<close>

function scan_levels ::
  "externals \<Rightarrow> bytes \<Rightarrow> 32 word \<Rightarrow> nat \<Rightarrow> 32 word \<Rightarrow> FenceInserter \<Rightarrow> fault + FenceInserter" where
  "scan_levels X key hash_result i num_bits s =
     (if i < kNumLevels X then
        (case set_mask num_bits s of
           Inl e \<Rightarrow> Inl e
         | Inr s1 \<Rightarrow>
             if hash_result AND bit_mask s1 = bit_mask s1
             then insert_from X key i s1
             else scan_levels X key hash_result (i + 1) (num_bits - bit_decrement) s1)
      else Inr s)"
  by pat_completeness auto
termination
  by (relation "measure (\<lambda>(X, key, hash_result, i, num_bits, s). kNumLevels X - i)") auto

declare scan_levels.simps [simp del]

definition murmur_seed :: "32 word" where
  "murmur_seed = 42"

definition FenceInserter_Put ::
  "externals \<Rightarrow> bytes \<Rightarrow> bytes \<Rightarrow> FenceInserter \<Rightarrow> fault + FenceInserter" where
  "FenceInserter_Put X key val s =
     (let hash_result = MurmurHash3_x86_32 X key murmur_seed in
      bindF (scan_levels X key hash_result 0 top_level_bits s) (\<lambda>s1.
        Inr (s1\<lparr>f_sequence := f_sequence s1 + 1\<rparr>)))"

definition FenceInserter_Delete :: "bytes \<Rightarrow> FenceInserter \<Rightarrow> fault + FenceInserter" where
  "FenceInserter_Delete key s = Inr (s\<lparr>f_sequence := f_sequence s + 1\<rparr>)"

definition FenceInserter_HandleFence ::
  "bytes \<Rightarrow> 32 word \<Rightarrow> FenceInserter \<Rightarrow> fault + FenceInserter" where
  "FenceInserter_HandleFence key lvl s = Inl AssertionFailed"

definition FenceInserter_Handler :: "externals \<Rightarrow> FenceInserter Handler" where
  "FenceInserter_Handler X =
     \<lparr>on_Put = FenceInserter_Put X,
      on_Delete = FenceInserter_Delete,
      on_HandleFence = FenceInserter_HandleFence\<rparr>"

text \<open>
  The constructor zeroes \<open>sequence_\<close>, \<open>bit_mask\<close> and every \<open>num_guards[i]\<close>;
  \<open>SetFences\<close> then sets \<open>sequence_\<close> and \<open>new_batch\<close>.  The inserter is a local of
  \<open>SetFences\<close>: what the caller sees afterwards is the status and \<open>new_batch\<close>.
\<close>

definition SetFences ::
  "externals \<Rightarrow> WriteBatch \<Rightarrow> WriteBatch \<Rightarrow> fault + (Status \<times> WriteBatch)" where
  "SetFences X batch nb =
     bindF (Sequence batch) (\<lambda>seq.
       bindF (Iterate X (FenceInserter_Handler X) batch
                \<lparr>new_batch = nb, f_sequence = seq, num_guards = (\<lambda>i. 0), bit_mask = 0\<rparr>)
         (\<lambda>(st, s). Inr (st, new_batch s)))"


section \<open>db/version\_edit.h\<close>

type_synonym InternalKey = bytes

definition Encode :: "InternalKey \<Rightarrow> bytes" where
  "Encode k = k"

definition InternalKey_DecodeFrom :: "externals \<Rightarrow> bytes \<Rightarrow> InternalKey \<times> bool" where
  "InternalKey_DecodeFrom X s = (s, InternalKey_valid X s)"

text \<open>
  Pointers (\<open>FenceMetaData* fence\<close>, \<open>std::vector<FileMetaData*> file_metas\<close>) are
  addresses, \<open>0\<close> for \<open>nullptr\<close>; nothing below follows one.
\<close>

record FileMetaData =
  refs :: int
  allowed_seeks :: int
  number :: "64 word"
  file_size :: "64 word"
  smallest :: InternalKey
  largest :: InternalKey
  fence :: nat

text \<open>
  The constructor leaves \<open>number\<close> unwritten; every path below writes it before the
  record is stored.
\<close>

definition FileMetaData_init :: FileMetaData where
  "FileMetaData_init =
     \<lparr>refs = 0, allowed_seeks = 2 ^ 30, number = 0, file_size = 0,
      smallest = [], largest = [], fence = 0\<rparr>"

record FenceMetaData =
  fence_refs :: int
  level :: int
  number_segments :: "64 word"
  fence_key :: InternalKey
  fence_smallest :: InternalKey
  fence_largest :: InternalKey
  files :: "64 word list"
  file_metas :: "nat list"

definition FenceMetaData_init :: FenceMetaData where
  "FenceMetaData_init =
     \<lparr>fence_refs = 0, level = - 1, number_segments = 0, fence_key = [],
      fence_smallest = [], fence_largest = [], files = [], file_metas = []\<rparr>"

text \<open>
  A \<open>std::set\<close> is the list of its elements in iteration order.  \<open>set_insert\<close> is
  \<open>std::set::insert\<close> for the comparison \<open>lt\<close>: the element goes before the first one
  it is less than, and is dropped when one equivalent to it is there.
\<close>

fun set_insert :: "('a \<Rightarrow> 'a \<Rightarrow> bool) \<Rightarrow> 'a \<Rightarrow> 'a list \<Rightarrow> 'a list" where
  "set_insert lt x [] = [x]"
| "set_insert lt x (y # ys) =
     (if lt x y then x # y # ys
      else if lt y x then y # set_insert lt x ys
      else y # ys)"

text \<open>\<open>std::less\<close> on \<open>std::pair<int, uint64_t>\<close>, the order of a \<open>DeletedFileSet\<close>.\<close>

definition file_pair_less :: "int \<times> 64 word \<Rightarrow> int \<times> 64 word \<Rightarrow> bool" where
  "file_pair_less p1 p2 = (fst p1 < fst p2 \<or> (\<not> fst p2 < fst p1 \<and> snd p1 < snd p2))"

text \<open>
  \<open>BySmallestPair\<close>, the order of a \<open>DeletedFenceSet\<close>.  The functor has one member,
  the pointer \<open>internal_comparator\<close> (\<open>None\<close> for \<open>nullptr\<close>, else the comparator's
  three-way \<open>Compare\<close>), and calls through it when the two levels are equal.
\<close>

type_synonym FencePair = "int \<times> InternalKey"

definition BySmallestPair ::
  "(InternalKey \<Rightarrow> InternalKey \<Rightarrow> int) option \<Rightarrow> FencePair \<Rightarrow> FencePair \<Rightarrow> fault + bool" where
  "BySmallestPair internal_comparator p1 p2 =
     (if fst p1 \<noteq> fst p2 then Inr (fst p1 < fst p2)
      else (case internal_comparator of
              None \<Rightarrow> Inl NullDereference
            | Some compare \<Rightarrow> Inr (compare (snd p1) (snd p2) < 0)))"

text \<open>
  \<open>std::set::insert\<close> for a comparison that can fault.  The list is walked from its
  least element; the tree of a \<open>std::set\<close> compares the new element with fewer elements,
  those on its search path.  For \<open>BySmallestPair\<close> the two agree on the fault: a
  comparison faults only between two pairs of one level, the pairs of a set that has not
  faulted have different levels, and a pair of the new element's level, when there is one,
  is on the search path and is reached by the walk before any pair of a greater level.
\<close>

fun set_insertF :: "('a \<Rightarrow> 'a \<Rightarrow> fault + bool) \<Rightarrow> 'a \<Rightarrow> 'a list \<Rightarrow> fault + 'a list" where
  "set_insertF lt x [] = Inr [x]"
| "set_insertF lt x (y # ys) =
     bindF (lt x y) (\<lambda>before.
       if before then Inr (x # y # ys)
       else bindF (lt y x) (\<lambda>after.
         if after then bindF (set_insertF lt x ys) (\<lambda>r. Inr (y # r))
         else Inr (y # ys)))"

text \<open>
  The member \<open>deleted_fences_\<close> is constructed by \<open>VersionEdit()\<close> with a
  value-initialised functor, and no line of the sources assigns the set or the pointer:
  \<open>internal_comparator\<close> is \<open>nullptr\<close> in every \<open>VersionEdit\<close>.
\<close>

definition deleted_fences_insert :: "FencePair \<Rightarrow> FencePair list \<Rightarrow> fault + FencePair list" where
  "deleted_fences_insert p ps = set_insertF (BySmallestPair None) p ps"

record VersionEdit =
  comparator :: bytes
  log_number :: "64 word"
  prev_log_number :: "64 word"
  next_file_number :: "64 word"
  last_sequence :: "64 word"
  has_comparator :: bool
  has_log_number :: bool
  has_prev_log_number :: bool
  has_next_file_number :: bool
  has_last_sequence :: bool
  compact_pointers :: "(int \<times> InternalKey) list"
  deleted_files :: "(int \<times> 64 word) list"
  new_files :: "(int \<times> FileMetaData) list"
  sentinel_files :: "nat \<Rightarrow> FileMetaData list"
  sentinel_file_nos :: "nat \<Rightarrow> 64 word list"
  deleted_sentinel_files :: "(int \<times> 64 word) list"
  new_fences :: "nat \<Rightarrow> FenceMetaData list"
  new_complete_fences :: "nat \<Rightarrow> FenceMetaData list"
  deleted_fences :: "(int \<times> InternalKey) list"

definition VersionEdit_Clear :: "externals \<Rightarrow> VersionEdit \<Rightarrow> VersionEdit" where
  "VersionEdit_Clear X e =
     e\<lparr>comparator := [],
       log_number := 0,
       prev_log_number := 0,
       last_sequence := 0,
       next_file_number := 0,
       has_comparator := False,
       has_log_number := False,
       has_prev_log_number := False,
       has_next_file_number := False,
       has_last_sequence := False,
       compact_pointers := [],
       deleted_files := [],
       new_files := [],
       new_fences := (\<lambda>i. if i < kNumLevels X then [] else new_fences e i),
       sentinel_files := (\<lambda>i. if i < kNumLevels X then [] else sentinel_files e i)\<rparr>"

text \<open>
  \<open>VersionEdit() { Clear(); }\<close>: the containers are constructed empty and \<open>Clear\<close>
  writes every scalar.
\<close>

definition VersionEdit_new :: "externals \<Rightarrow> VersionEdit" where
  "VersionEdit_new X =
     VersionEdit_Clear X
       \<lparr>comparator = [], log_number = 0, prev_log_number = 0, next_file_number = 0,
        last_sequence = 0, has_comparator = False, has_log_number = False,
        has_prev_log_number = False, has_next_file_number = False,
        has_last_sequence = False, compact_pointers = [], deleted_files = [],
        new_files = [], sentinel_files = (\<lambda>i. []), sentinel_file_nos = (\<lambda>i. []),
        deleted_sentinel_files = [], new_fences = (\<lambda>i. []),
        new_complete_fences = (\<lambda>i. []), deleted_fences = []\<rparr>"

definition in_levels :: "externals \<Rightarrow> int \<Rightarrow> bool" where
  "in_levels X lvl = (0 \<le> lvl \<and> lvl < int (kNumLevels X))"

definition SetComparatorName :: "bytes \<Rightarrow> VersionEdit \<Rightarrow> VersionEdit" where
  "SetComparatorName name e = e\<lparr>has_comparator := True, comparator := name\<rparr>"

definition SetLogNumber :: "64 word \<Rightarrow> VersionEdit \<Rightarrow> VersionEdit" where
  "SetLogNumber num e = e\<lparr>has_log_number := True, log_number := num\<rparr>"

definition SetPrevLogNumber :: "64 word \<Rightarrow> VersionEdit \<Rightarrow> VersionEdit" where
  "SetPrevLogNumber num e = e\<lparr>has_prev_log_number := True, prev_log_number := num\<rparr>"

definition SetNextFile :: "64 word \<Rightarrow> VersionEdit \<Rightarrow> VersionEdit" where
  "SetNextFile num e = e\<lparr>has_next_file_number := True, next_file_number := num\<rparr>"

definition SetLastSequence :: "64 word \<Rightarrow> VersionEdit \<Rightarrow> VersionEdit" where
  "SetLastSequence seq e = e\<lparr>has_last_sequence := True, last_sequence := seq\<rparr>"

definition SetCompactPointer :: "int \<Rightarrow> InternalKey \<Rightarrow> VersionEdit \<Rightarrow> VersionEdit" where
  "SetCompactPointer lvl key e = e\<lparr>compact_pointers := compact_pointers e @ [(lvl, key)]\<rparr>"

definition AddFile ::
  "int \<Rightarrow> 64 word \<Rightarrow> 64 word \<Rightarrow> InternalKey \<Rightarrow> InternalKey \<Rightarrow> VersionEdit \<Rightarrow> VersionEdit" where
  "AddFile lvl file fsize sm lg e =
     (let f = FileMetaData_init\<lparr>number := file, file_size := fsize, smallest := sm, largest := lg\<rparr>
      in e\<lparr>new_files := new_files e @ [(lvl, f)]\<rparr>)"

definition AddFileToSentinel ::
  "externals \<Rightarrow> FileMetaData \<Rightarrow> int \<Rightarrow> VersionEdit \<Rightarrow> fault + VersionEdit" where
  "AddFileToSentinel X f lvl e =
     (if in_levels X lvl
      then Inr (e\<lparr>sentinel_files := (sentinel_files e)(nat lvl := sentinel_files e (nat lvl) @ [f])\<rparr>)
      else Inl AssertionFailed)"

definition AddSentinelFile ::
  "externals \<Rightarrow> int \<Rightarrow> int \<Rightarrow> 64 word \<Rightarrow> nat \<Rightarrow> InternalKey \<Rightarrow> InternalKey \<Rightarrow> 64 word \<Rightarrow> int \<Rightarrow>
   VersionEdit \<Rightarrow> fault + VersionEdit" where
  "AddSentinelFile X lvl seeks fsize f lg sm num rfs e =
     (let meta = FileMetaData_init\<lparr>allowed_seeks := seeks, file_size := fsize, fence := f,
                                   largest := lg, smallest := sm, number := num, refs := rfs\<rparr>
      in if in_levels X lvl
         then Inr (e\<lparr>sentinel_files :=
                       (sentinel_files e)(nat lvl := sentinel_files e (nat lvl) @ [meta])\<rparr>)
         else Inl OutOfBounds)"

definition AddSentinelFileNo ::
  "externals \<Rightarrow> int \<Rightarrow> 64 word \<Rightarrow> VersionEdit \<Rightarrow> fault + VersionEdit" where
  "AddSentinelFileNo X lvl no e =
     (if in_levels X lvl
      then Inr (e\<lparr>sentinel_file_nos :=
                    (sentinel_file_nos e)(nat lvl := sentinel_file_nos e (nat lvl) @ [no])\<rparr>)
      else Inl OutOfBounds)"

definition AddFence :: "externals \<Rightarrow> int \<Rightarrow> InternalKey \<Rightarrow> VersionEdit \<Rightarrow> fault + VersionEdit" where
  "AddFence X lvl key e =
     (if in_levels X lvl
      then (let g = FenceMetaData_init\<lparr>fence_key := key, level := lvl, number_segments := 0\<rparr>
            in Inr (e\<lparr>new_fences := (new_fences e)(nat lvl := new_fences e (nat lvl) @ [g])\<rparr>))
      else Inl AssertionFailed)"

definition AddCompleteFence ::
  "externals \<Rightarrow> int \<Rightarrow> InternalKey \<Rightarrow> VersionEdit \<Rightarrow> fault + VersionEdit" where
  "AddCompleteFence X lvl key e =
     (if in_levels X lvl
      then (let f = FenceMetaData_init\<lparr>fence_key := key, level := lvl, number_segments := 0\<rparr>
            in Inr (e\<lparr>new_complete_fences :=
                          (new_complete_fences e)(nat lvl := new_complete_fences e (nat lvl) @ [f])\<rparr>))
      else Inl AssertionFailed)"

definition AddFenceFromExisting ::
  "externals \<Rightarrow> int \<Rightarrow> FenceMetaData \<Rightarrow> VersionEdit \<Rightarrow> fault + VersionEdit" where
  "AddFenceFromExisting X lvl g e =
     (if in_levels X lvl
      then Inr (e\<lparr>new_fences := (new_fences e)(nat lvl := new_fences e (nat lvl) @ [g])\<rparr>)
      else Inl AssertionFailed)"

definition AddCompleteFenceFromExisting ::
  "externals \<Rightarrow> int \<Rightarrow> FenceMetaData \<Rightarrow> VersionEdit \<Rightarrow> fault + VersionEdit" where
  "AddCompleteFenceFromExisting X lvl f e =
     (if in_levels X lvl
      then Inr (e\<lparr>new_complete_fences :=
                    (new_complete_fences e)(nat lvl := new_complete_fences e (nat lvl) @ [f])\<rparr>)
      else Inl AssertionFailed)"

definition AddFenceWithFiles ::
  "externals \<Rightarrow> int \<Rightarrow> 64 word \<Rightarrow> InternalKey \<Rightarrow> InternalKey \<Rightarrow> InternalKey \<Rightarrow> 64 word list \<Rightarrow>
   VersionEdit \<Rightarrow> fault + VersionEdit" where
  "AddFenceWithFiles X lvl nsegs key sm lg fs e =
     (if in_levels X lvl
      then (let g = FenceMetaData_init\<lparr>fence_key := key, level := lvl, fence_smallest := sm,
                                        fence_largest := lg, number_segments := nsegs,
                                        files := fs\<rparr>
            in Inr (e\<lparr>new_fences := (new_fences e)(nat lvl := new_fences e (nat lvl) @ [g])\<rparr>))
      else Inl AssertionFailed)"

definition RemoveFile :: "int \<Rightarrow> 64 word \<Rightarrow> VersionEdit \<Rightarrow> VersionEdit" where
  "RemoveFile lvl file e = e\<lparr>deleted_files := set_insert file_pair_less (lvl, file) (deleted_files e)\<rparr>"

definition DeleteFence :: "int \<Rightarrow> InternalKey \<Rightarrow> VersionEdit \<Rightarrow> fault + VersionEdit" where
  "DeleteFence lvl key e =
     bindF (deleted_fences_insert (lvl, key) (deleted_fences e)) (\<lambda>s.
       Inr (e\<lparr>deleted_fences := s\<rparr>))"

definition DeleteSentinelFile :: "int \<Rightarrow> 64 word \<Rightarrow> VersionEdit \<Rightarrow> VersionEdit" where
  "DeleteSentinelFile lvl file e =
     e\<lparr>deleted_sentinel_files := set_insert file_pair_less (lvl, file) (deleted_sentinel_files e)\<rparr>"

section \<open>db/version\_edit.cc\<close>

definition kComparator :: "32 word" where "kComparator = 1"
definition kLogNumber :: "32 word" where "kLogNumber = 2"
definition kNextFileNumber :: "32 word" where "kNextFileNumber = 3"
definition kLastSequence :: "32 word" where "kLastSequence = 4"
definition kCompactPointer :: "32 word" where "kCompactPointer = 5"
definition kDeletedFile :: "32 word" where "kDeletedFile = 6"
definition kNewFile :: "32 word" where "kNewFile = 7"
definition kPrevLogNumber :: "32 word" where "kPrevLogNumber = 9"
definition kNewFence :: "32 word" where "kNewFence = 10"
definition kDeletedFence :: "32 word" where "kDeletedFence = 11"
definition kFileInsideFence :: "32 word" where "kFileInsideFence = 12"
definition kNewSentinelFile :: "32 word" where "kNewSentinelFile = 13"
definition kDeletedSentinelFile :: "32 word" where "kDeletedSentinelFile = 14"
definition kNewCompleteFence :: "32 word" where "kNewCompleteFence = 15"
definition kNewSentinelFileNo :: "32 word" where "kNewSentinelFileNo = 16"

subsection \<open>EncodeTo\<close>

definition EncodeTo :: "externals \<Rightarrow> VersionEdit \<Rightarrow> bytes \<Rightarrow> bytes" where
  "EncodeTo X e dst0 =
     (let dst1 = (if has_comparator e
                  then PutLengthPrefixedSlice (PutVarint32 dst0 kComparator) (comparator e)
                  else dst0);
          dst2 = (if has_log_number e
                  then PutVarint64 (PutVarint32 dst1 kLogNumber) (log_number e)
                  else dst1);
          dst3 = (if has_prev_log_number e
                  then PutVarint64 (PutVarint32 dst2 kPrevLogNumber) (prev_log_number e)
                  else dst2);
          dst4 = (if has_next_file_number e
                  then PutVarint64 (PutVarint32 dst3 kNextFileNumber) (next_file_number e)
                  else dst3);
          dst5 = (if has_last_sequence e
                  then PutVarint64 (PutVarint32 dst4 kLastSequence) (last_sequence e)
                  else dst4);
          dst6 = fold (\<lambda>p dst.
                   PutLengthPrefixedSlice
                     (PutVarint32 (PutVarint32 dst kCompactPointer) (word_of_int (fst p)))
                     (Encode (snd p)))
                   (compact_pointers e) dst5;
          dst7 = fold (\<lambda>p dst.
                   PutVarint64 (PutVarint32 (PutVarint32 dst kDeletedFile) (word_of_int (fst p)))
                     (snd p))
                   (deleted_files e) dst6;
          dst8 = fold (\<lambda>p dst.
                   PutLengthPrefixedSlice
                     (PutLengthPrefixedSlice
                        (PutVarint64
                           (PutVarint64
                              (PutVarint32 (PutVarint32 dst kNewFile) (word_of_int (fst p)))
                              (number (snd p)))
                           (file_size (snd p)))
                        (Encode (smallest (snd p))))
                     (Encode (largest (snd p))))
                   (new_files e) dst7;
          dst9 = fold (\<lambda>p dst.
                   PutLengthPrefixedSlice
                     (PutVarint32 (PutVarint32 dst kDeletedFence) (word_of_int (fst p)))
                     (Encode (snd p)))
                   (deleted_fences e) dst8;
          dst10 = fold (\<lambda>k dst.
                    fold (\<lambda>f dst.
                      PutLengthPrefixedSlice
                        (PutVarint64
                           (PutVarint32 (PutVarint32 dst kNewFence) (word_of_int (level f)))
                           0)
                        (Encode (fence_key f)))
                      (new_fences e k) dst)
                    [0 ..< kNumLevels X] dst9;
          dst11 = fold (\<lambda>k dst.
                    fold (\<lambda>f dst.
                      PutLengthPrefixedSlice
                        (PutVarint64
                           (PutVarint32 (PutVarint32 dst kNewCompleteFence) (word_of_int (level f)))
                           0)
                        (Encode (fence_key f)))
                      (new_complete_fences e k) dst)
                    [0 ..< kNumLevels X] dst10;
          dst12 = fold (\<lambda>p dst.
                    PutVarint64
                      (PutVarint32 (PutVarint32 dst kDeletedSentinelFile) (word_of_int (fst p)))
                      (snd p))
                    (deleted_sentinel_files e) dst11
      in dst12)"

subsection \<open>DecodeFrom\<close>

definition GetInternalKey :: "externals \<Rightarrow> bytes \<Rightarrow> (InternalKey \<times> bytes) option" where
  "GetInternalKey X input =
     (case GetLengthPrefixedSlice input of
        Some (str, r) \<Rightarrow>
          (case InternalKey_DecodeFrom X str of (k, ok) \<Rightarrow> if ok then Some (k, r) else None)
      | None \<Rightarrow> None)"

definition GetLevel :: "externals \<Rightarrow> bytes \<Rightarrow> (int \<times> bytes) option" where
  "GetLevel X input =
     (case GetVarint32 input of
        Some (v, r) \<Rightarrow> if unat v < kNumLevels X then Some (uint v, r) else None
      | None \<Rightarrow> None)"

text \<open>
  The locals of \<open>DecodeFrom\<close> that live across iterations of its loop, with the edit
  being filled: \<open>g\<close> (whose \<open>smallest\<close> and \<open>largest\<close> are written only for a fence
  with segments), and \<open>tag2\<close> and \<open>fnumber\<close>, which are declared without a value
  (\<open>None\<close>) and written by calls whose result is not checked.  The locals \<open>level\<close>,
  \<open>number\<close>, \<open>str\<close>, \<open>key\<close> and the four fields of \<open>f\<close> that the loop uses are
  written by the same condition that guards their use.
\<close>

record decoding =
  d_edit :: VersionEdit
  d_g :: FenceMetaData
  d_tag2 :: "32 word option"
  d_fnumber :: "64 word option"

text \<open>
  The loop \<open>for (size_t j = 0; j < g.number_segments; j++)\<close> of the new-fence case, run
  for \<open>n\<close> more rounds.  A \<open>Get\<close> that fails leaves its input and its target as they
  were.  \<open>assert(tag2 == kFileInsideFence)\<close> reads \<open>tag2\<close> and compares it unless
  \<open>NDEBUG\<close> is defined (\<open>ndebug\<close>).
\<close>

definition assert_tag2 :: "bool \<Rightarrow> 32 word option \<Rightarrow> fault + unit" where
  "assert_tag2 ndebug t =
     (if ndebug then Inr ()
      else (case t of
              None \<Rightarrow> Inl UninitializedRead
            | Some tv \<Rightarrow> if tv = kFileInsideFence then Inr () else Inl AssertionFailed))"

primrec files_inside_fence ::
  "bool \<Rightarrow> nat \<Rightarrow> bytes \<Rightarrow> 32 word option \<Rightarrow> 64 word option \<Rightarrow> 64 word list \<Rightarrow>
   fault + (bytes \<times> 32 word option \<times> 64 word option \<times> 64 word list)" where
  "files_inside_fence ndebug 0 input t fn fs = Inr (input, t, fn, fs)"
| "files_inside_fence ndebug (Suc n) input t fn fs =
     (case (case GetVarint32 input of None \<Rightarrow> (t, input) | Some (v, r) \<Rightarrow> (Some v, r)) of
        (t1, input1) \<Rightarrow>
          (case assert_tag2 ndebug t1 of
             Inl f \<Rightarrow> Inl f
           | Inr u \<Rightarrow>
               (case (case GetVarint64 input1 of None \<Rightarrow> (fn, input1)
                      | Some (v, r) \<Rightarrow> (Some v, r)) of
                  (fn1, input2) \<Rightarrow>
                    (case fn1 of
                       None \<Rightarrow> Inl UninitializedRead
                     | Some fv \<Rightarrow> files_inside_fence ndebug n input2 t1 fn1 (fs @ [fv])))))"

definition failed :: "string \<Rightarrow> bytes \<Rightarrow> decoding \<Rightarrow> fault + (string option \<times> bytes \<times> decoding)" where
  "failed msg input d = Inr (Some msg, input, d)"

definition GetFile :: "externals \<Rightarrow> bytes \<Rightarrow> ((int \<times> FileMetaData) \<times> bytes) option" where
  "GetFile X input =
     Option.bind (GetLevel X input) (\<lambda>(lvl, r1).
     Option.bind (GetVarint64 r1) (\<lambda>(num, r2).
     Option.bind (GetVarint64 r2) (\<lambda>(fsize, r3).
     Option.bind (GetInternalKey X r3) (\<lambda>(sm, r4).
     Option.bind (GetInternalKey X r4) (\<lambda>(lg, r5).
       Some ((lvl, FileMetaData_init\<lparr>number := num, file_size := fsize,
                                      smallest := sm, largest := lg\<rparr>), r5))))))"

definition GetFenceHead ::
  "externals \<Rightarrow> bytes \<Rightarrow> ((int \<times> 64 word \<times> InternalKey) \<times> bytes) option" where
  "GetFenceHead X input =
     Option.bind (GetLevel X input) (\<lambda>(lvl, r1).
     Option.bind (GetVarint64 r1) (\<lambda>(n, r2).
     Option.bind (GetInternalKey X r2) (\<lambda>(key, r3).
       Some ((lvl, n, key), r3))))"

definition GetKeyPair :: "externals \<Rightarrow> bytes \<Rightarrow> ((InternalKey \<times> InternalKey) \<times> bytes) option" where
  "GetKeyPair X input =
     Option.bind (GetInternalKey X input) (\<lambda>(sm, r1).
     Option.bind (GetInternalKey X r1) (\<lambda>(lg, r2).
       Some ((sm, lg), r2)))"

text \<open>
  \<open>assert(GetInternalKey(&input, &g.smallest) && GetInternalKey(&input, &g.largest))\<close>:
  unless \<open>NDEBUG\<close> is defined the two keys are read from the input into \<open>g\<close>, and
  the program stops when one of the reads fails; with \<open>NDEBUG\<close> nothing is read.
\<close>

definition assert_key_pair ::
  "externals \<Rightarrow> FenceMetaData \<Rightarrow> bytes \<Rightarrow> fault + (FenceMetaData \<times> bytes)" where
  "assert_key_pair X g input =
     (if NDEBUG X then Inr (g, input)
      else (case GetKeyPair X input of
              None \<Rightarrow> Inl AssertionFailed
            | Some ((sm, lg), r) \<Rightarrow> Inr (g\<lparr>fence_smallest := sm, fence_largest := lg\<rparr>, r)))"

text \<open>
  One round of the loop after its tag was read: the \<open>switch\<close>.  It returns \<open>msg\<close>, the
  input left and the locals.
\<close>

definition DecodeFrom_switch ::
  "externals \<Rightarrow> 32 word \<Rightarrow> bytes \<Rightarrow> decoding \<Rightarrow> fault + (string option \<times> bytes \<times> decoding)" where
  "DecodeFrom_switch X tag input d =
     (let e = d_edit d in
      if tag = kComparator then
        (case GetLengthPrefixedSlice input of
           Some (str, r) \<Rightarrow>
             Inr (None, r, d\<lparr>d_edit := e\<lparr>comparator := str, has_comparator := True\<rparr>\<rparr>)
         | None \<Rightarrow> failed ''comparator name'' input d)
      else if tag = kLogNumber then
        (case GetVarint64 input of
           Some (v, r) \<Rightarrow>
             Inr (None, r, d\<lparr>d_edit := e\<lparr>log_number := v, has_log_number := True\<rparr>\<rparr>)
         | None \<Rightarrow> failed ''log number'' input d)
      else if tag = kPrevLogNumber then
        (case GetVarint64 input of
           Some (v, r) \<Rightarrow>
             Inr (None, r, d\<lparr>d_edit := e\<lparr>prev_log_number := v, has_prev_log_number := True\<rparr>\<rparr>)
         | None \<Rightarrow> failed ''previous log number'' input d)
      else if tag = kNextFileNumber then
        (case GetVarint64 input of
           Some (v, r) \<Rightarrow>
             Inr (None, r, d\<lparr>d_edit := e\<lparr>next_file_number := v, has_next_file_number := True\<rparr>\<rparr>)
         | None \<Rightarrow> failed ''next file number'' input d)
      else if tag = kLastSequence then
        (case GetVarint64 input of
           Some (v, r) \<Rightarrow>
             Inr (None, r, d\<lparr>d_edit := e\<lparr>last_sequence := v, has_last_sequence := True\<rparr>\<rparr>)
         | None \<Rightarrow> failed ''last sequence number'' input d)
      else if tag = kCompactPointer then
        (case Option.bind (GetLevel X input) (\<lambda>(lvl, r1).
              Option.bind (GetInternalKey X r1) (\<lambda>(key, r2). Some ((lvl, key), r2))) of
           Some (p, r) \<Rightarrow>
             Inr (None, r, d\<lparr>d_edit := e\<lparr>compact_pointers := compact_pointers e @ [p]\<rparr>\<rparr>)
         | None \<Rightarrow> failed ''compaction pointer'' input d)
      else if tag = kDeletedFile then
        (case Option.bind (GetLevel X input) (\<lambda>(lvl, r1).
              Option.bind (GetVarint64 r1) (\<lambda>(num, r2). Some ((lvl, num), r2))) of
           Some (p, r) \<Rightarrow>
             Inr (None, r, d\<lparr>d_edit := e\<lparr>deleted_files := set_insert file_pair_less p (deleted_files e)\<rparr>\<rparr>)
         | None \<Rightarrow> failed ''deleted file'' input d)
      else if tag = kDeletedFence then
        (case Option.bind (GetLevel X input) (\<lambda>(lvl, r1).
              Option.bind (GetInternalKey X r1) (\<lambda>(key, r2). Some ((lvl, key), r2))) of
           Some (p, r) \<Rightarrow>
             (case deleted_fences_insert p (deleted_fences e) of
                Inl f \<Rightarrow> Inl f
              | Inr s \<Rightarrow> Inr (None, r, d\<lparr>d_edit := e\<lparr>deleted_fences := s\<rparr>\<rparr>))
         | None \<Rightarrow> failed ''deleted guard'' input d)
      else if tag = kDeletedSentinelFile then
        (case Option.bind (GetLevel X input) (\<lambda>(lvl, r1).
              Option.bind (GetVarint64 r1) (\<lambda>(num, r2). Some ((lvl, num), r2))) of
           Some (p, r) \<Rightarrow>
             Inr (None, r,
                  d\<lparr>d_edit := e\<lparr>deleted_sentinel_files :=
                                    set_insert file_pair_less p (deleted_sentinel_files e)\<rparr>\<rparr>)
         | None \<Rightarrow> failed ''deleted sentinel file'' input d)
      else if tag = kNewFile then
        (case GetFile X input of
           Some (p, r) \<Rightarrow> Inr (None, r, d\<lparr>d_edit := e\<lparr>new_files := new_files e @ [p]\<rparr>\<rparr>)
         | None \<Rightarrow> failed ''new-file entry'' input d)
      else if tag = kNewSentinelFile then
        (case Option.bind (GetLevel X input) (\<lambda>(lvl, r1).
              Option.bind (GetVarint64 r1) (\<lambda>(num, r2). Some ((lvl, num), r2))) of
           Some ((lvl, num), r) \<Rightarrow>
             Inr (None, r,
                  d\<lparr>d_edit := e\<lparr>sentinel_file_nos :=
                                    (sentinel_file_nos e)
                                      (nat lvl := sentinel_file_nos e (nat lvl) @ [num])\<rparr>,
                    d_fnumber := Some num\<rparr>)
         | None \<Rightarrow> failed ''new-sentinel-file entry'' input d)
      else if tag = kNewSentinelFileNo then
        (case GetFile X input of
           Some (p, r) \<Rightarrow> Inr (None, r, d\<lparr>d_edit := e\<lparr>new_files := new_files e @ [p]\<rparr>\<rparr>)
         | None \<Rightarrow> failed ''new-sentinel-file entry'' input d)
      else if tag = kNewFence then
        (case GetFenceHead X input of
           Some ((lvl, n, key), r) \<Rightarrow>
             (let g1 = (d_g d)\<lparr>level := lvl, number_segments := n, fence_key := key, files := []\<rparr>
              in if 0 < n then
                   (case assert_key_pair X g1 r of
                      Inl f \<Rightarrow> Inl f
                    | Inr (g2, r1) \<Rightarrow>
                        (case files_inside_fence (NDEBUG X) (unat n) r1 (d_tag2 d) (d_fnumber d) [] of
                           Inl f \<Rightarrow> Inl f
                         | Inr (r2, t, fn, fs) \<Rightarrow>
                             (let g3 = g2\<lparr>files := fs\<rparr>
                              in Inr (None, r2,
                                      d\<lparr>d_edit := e\<lparr>new_fences :=
                                                        (new_fences e)
                                                          (nat lvl := new_fences e (nat lvl) @ [g3])\<rparr>,
                                        d_g := g3, d_tag2 := t, d_fnumber := fn\<rparr>))))
                 else Inr (None, r,
                           d\<lparr>d_edit := e\<lparr>new_fences :=
                                             (new_fences e)
                                               (nat lvl := new_fences e (nat lvl) @ [g1])\<rparr>,
                             d_g := g1\<rparr>))
         | None \<Rightarrow> failed ''new-fence entry'' input d)
      else if tag = kNewCompleteFence then
        (case GetFenceHead X input of
           Some ((lvl, n, key), r) \<Rightarrow>
             (let g1 = (d_g d)\<lparr>level := lvl, number_segments := n, fence_key := key, files := []\<rparr>
              in if 0 < n then
                   (case assert_key_pair X g1 r of
                      Inl f \<Rightarrow> Inl f
                    | Inr (g2, r1) \<Rightarrow>
                        Inr (None, r1,
                             d\<lparr>d_edit := e\<lparr>new_complete_fences :=
                                               (new_complete_fences e)
                                                 (nat lvl := new_complete_fences e (nat lvl) @ [g2])\<rparr>,
                               d_g := g2\<rparr>))
                 else Inr (None, r,
                           d\<lparr>d_edit := e\<lparr>new_complete_fences :=
                                             (new_complete_fences e)
                                               (nat lvl := new_complete_fences e (nat lvl) @ [g1])\<rparr>,
                             d_g := g1\<rparr>))
         | None \<Rightarrow> failed ''new-complete-fence entry'' input d)
      else failed ''unknown tag'' input d)"


lemma GetLevel_length:
  "GetLevel X input = Some (v, r) \<Longrightarrow> length r < length input"
  by (auto simp: GetLevel_def split: option.splits if_splits dest!: GetVarint32_length)

lemma GetInternalKey_length:
  "GetInternalKey X input = Some (v, r) \<Longrightarrow> length r < length input"
  by (auto simp: GetInternalKey_def InternalKey_DecodeFrom_def split: option.splits if_splits
           dest!: GetLengthPrefixedSlice_length)

lemma GetFile_length:
  "GetFile X input = Some (v, r) \<Longrightarrow> length r < length input"
  by (fastforce simp: GetFile_def Option.bind_eq_Some_conv
                dest!: GetLevel_length GetVarint64_length GetInternalKey_length)

lemma GetFenceHead_length:
  "GetFenceHead X input = Some (v, r) \<Longrightarrow> length r < length input"
  by (fastforce simp: GetFenceHead_def Option.bind_eq_Some_conv
                dest!: GetLevel_length GetVarint64_length GetInternalKey_length)

lemma GetKeyPair_length:
  "GetKeyPair X input = Some (v, r) \<Longrightarrow> length r < length input"
  by (fastforce simp: GetKeyPair_def Option.bind_eq_Some_conv dest!: GetInternalKey_length)

lemma GetLevel_pair_length:
  "Option.bind (GetLevel X input) (\<lambda>(lvl, r1).
     Option.bind (GetVarint64 r1) (\<lambda>(num, r2). Some ((lvl, num), r2))) = Some (v, r)
   \<Longrightarrow> length r < length input"
  by (fastforce simp: Option.bind_eq_Some_conv dest!: GetLevel_length GetVarint64_length)

lemma GetLevel_key_length:
  "Option.bind (GetLevel X input) (\<lambda>(lvl, r1).
     Option.bind (GetInternalKey X r1) (\<lambda>(key, r2). Some ((lvl, key), r2))) = Some (v, r)
   \<Longrightarrow> length r < length input"
  by (fastforce simp: Option.bind_eq_Some_conv dest!: GetLevel_length GetInternalKey_length)

lemma files_inside_fence_length:
  "files_inside_fence nd n input t fn fs = Inr (r, t', fn', fs') \<Longrightarrow> length r \<le> length input"
proof (induction n arbitrary: input t fn fs)
  case 0
  then show ?case by simp
next
  case (Suc n)
  then show ?case
    by (fastforce split: option.splits if_splits prod.splits sum.splits
                  dest!: GetVarint32_length GetVarint64_length)
qed

lemma assert_key_pair_length:
  "assert_key_pair X g input = Inr (g', r) \<Longrightarrow> length r \<le> length input"
  by (auto simp: assert_key_pair_def split: if_splits option.splits dest!: GetKeyPair_length)

lemma DecodeFrom_switch_length:
  "DecodeFrom_switch X tag input d = Inr (m, r, d') \<Longrightarrow> length r \<le> length input"
  unfolding DecodeFrom_switch_def failed_def Let_def
  by (auto split: if_splits option.splits sum.splits prod.splits
           dest!: GetLengthPrefixedSlice_length GetVarint64_length GetFile_length
                  GetFenceHead_length GetKeyPair_length GetLevel_pair_length
                  GetLevel_key_length files_inside_fence_length assert_key_pair_length)

text \<open>The loop \<open>while (msg == nullptr && GetVarint32(&input, &tag))\<close>.\<close>

function DecodeFrom_loop ::
  "externals \<Rightarrow> decoding \<Rightarrow> bytes \<Rightarrow> fault + (string option \<times> bytes \<times> decoding)" where
  "DecodeFrom_loop X d input =
     (case GetVarint32 input of
        None \<Rightarrow> Inr (None, input, d)
      | Some (tag, input1) \<Rightarrow>
          (case DecodeFrom_switch X tag input1 d of
             Inl f \<Rightarrow> Inl f
           | Inr (Some msg, input2, d2) \<Rightarrow> Inr (Some msg, input2, d2)
           | Inr (None, input2, d2) \<Rightarrow> DecodeFrom_loop X d2 input2))"
  by pat_completeness auto
termination
  by (relation "measure (\<lambda>(X, d, input). length input)")
     (auto dest!: GetVarint32_length DecodeFrom_switch_length)

declare DecodeFrom_loop.simps [simp del]

definition DecodeFrom :: "externals \<Rightarrow> bytes \<Rightarrow> VersionEdit \<Rightarrow> fault + (Status \<times> VersionEdit)" where
  "DecodeFrom X src e =
     (case DecodeFrom_loop X
             \<lparr>d_edit = VersionEdit_Clear X e, d_g = FenceMetaData_init,
              d_tag2 = None, d_fnumber = None\<rparr> src of
        Inl f \<Rightarrow> Inl f
      | Inr (msg, input, d) \<Rightarrow>
          (let msg1 = (if msg = None \<and> input \<noteq> [] then Some ''invalid tag'' else msg)
           in Inr (case msg1 of None \<Rightarrow> OK | Some m \<Rightarrow> Corruption ''VersionEdit'' m,
                   d_edit d)))"


section \<open>Calls, entries and an instance of the parameters\<close>

subsection \<open>Sequences of calls on a batch\<close>

datatype batch_call =
    Call_Put bytes bytes
  | Call_Delete bytes
  | Call_PutFence bytes int

fun apply_call :: "externals \<Rightarrow> batch_call \<Rightarrow> WriteBatch \<Rightarrow> fault + WriteBatch" where
  "apply_call X (Call_Put key val) b = Put X b key val"
| "apply_call X (Call_Delete key) b = Delete X b key"
| "apply_call X (Call_PutFence key lvl) b = PutFence X b key lvl"

fun apply_calls :: "externals \<Rightarrow> batch_call list \<Rightarrow> WriteBatch \<Rightarrow> fault + WriteBatch" where
  "apply_calls X [] b = Inr b"
| "apply_calls X (c # cs) b = bindF (apply_call X c b) (apply_calls X cs)"

text \<open>The bytes one call appends to \<open>rep_\<close>: the record's encoded form.\<close>

fun record_bytes :: "externals \<Rightarrow> batch_call \<Rightarrow> bytes" where
  "record_bytes X (Call_Put key val) =
     PutLengthPrefixedSlice (PutLengthPrefixedSlice [kTypeValue X] key) val"
| "record_bytes X (Call_Delete key) = PutLengthPrefixedSlice [kTypeDeletion X] key"
| "record_bytes X (Call_PutFence key lvl) =
     PutVarint32 (PutLengthPrefixedSlice [kTypeFence X] key) (word_of_int lvl)"

text \<open>What a handler is called with: one entry per record.\<close>

datatype entry =
    ValueEntry bytes bytes
  | DeletionEntry bytes
  | FenceEntry bytes "32 word"

fun entry_of_call :: "batch_call \<Rightarrow> entry" where
  "entry_of_call (Call_Put key val) = ValueEntry key val"
| "entry_of_call (Call_Delete key) = DeletionEntry key"
| "entry_of_call (Call_PutFence key lvl) = FenceEntry key (word_of_int lvl)"

fun dispatch :: "'s Handler \<Rightarrow> entry \<Rightarrow> 's \<Rightarrow> fault + 's" where
  "dispatch h (ValueEntry key val) s = on_Put h key val s"
| "dispatch h (DeletionEntry key) s = on_Delete h key s"
| "dispatch h (FenceEntry key lvl) s = on_HandleFence h key lvl s"

fun dispatch_all :: "'s Handler \<Rightarrow> entry list \<Rightarrow> 's \<Rightarrow> fault + 's" where
  "dispatch_all h [] s = Inr s"
| "dispatch_all h (en # ens) s = bindF (dispatch h en s) (dispatch_all h ens)"

text \<open>
  The \<open>switch\<close> of \<open>Iterate\<close> up to the handler call: the entry a record decodes
  to and the input after it, or the status the loop returns with.  \<open>Iterate_loop_Cons\<close>
  below is the loop in these terms.
\<close>

definition read_record :: "externals \<Rightarrow> byte \<Rightarrow> bytes \<Rightarrow> Status + (entry \<times> bytes)" where
  "read_record X tag input1 =
     (if tag = kTypeValue X then
        (case GetLengthPrefixedSlice input1 of
           None \<Rightarrow> Inl (Corruption ''bad WriteBatch Put'' [])
         | Some (key, input2) \<Rightarrow>
             (case GetLengthPrefixedSlice input2 of
                None \<Rightarrow> Inl (Corruption ''bad WriteBatch Put'' [])
              | Some (val, input3) \<Rightarrow> Inr (ValueEntry key val, input3)))
      else if tag = kTypeDeletion X then
        (case GetLengthPrefixedSlice input1 of
           None \<Rightarrow> Inl (Corruption ''bad WriteBatch Delete'' [])
         | Some (key, input2) \<Rightarrow> Inr (DeletionEntry key, input2))
      else if tag = kTypeFence X then
        (case GetLengthPrefixedSlice input1 of
           None \<Rightarrow> Inl (Corruption ''unknown WriteBatch tag'' [])
         | Some (key, input2) \<Rightarrow>
             (case GetVarint32 input2 of
                None \<Rightarrow> Inl (Corruption ''unknown WriteBatch tag'' [])
              | Some (lvl, input3) \<Rightarrow> Inr (FenceEntry key lvl, input3)))
      else Inl (Corruption ''unknown WriteBatch tag'' []))"

text \<open>The handler that writes down the calls it receives.\<close>

definition Recorder :: "entry list Handler" where
  "Recorder =
     \<lparr>on_Put = (\<lambda>key val s. Inr (s @ [ValueEntry key val])),
      on_Delete = (\<lambda>key s. Inr (s @ [DeletionEntry key])),
      on_HandleFence = (\<lambda>key lvl s. Inr (s @ [FenceEntry key lvl]))\<rparr>"

text \<open>A batch holds the entries \<open>ens\<close>: replay succeeds and dispatches exactly them.\<close>

definition holds_entries :: "externals \<Rightarrow> WriteBatch \<Rightarrow> entry list \<Rightarrow> bool" where
  "holds_entries X b ens = (Iterate X Recorder b [] = Inr (OK, ens))"

definition fits32 :: "bytes \<Rightarrow> bool" where
  "fits32 s = (length s < 2 ^ 32)"

fun call_fits :: "batch_call \<Rightarrow> bool" where
  "call_fits (Call_Put key val) = (fits32 key \<and> fits32 val)"
| "call_fits (Call_Delete key) = fits32 key"
| "call_fits (Call_PutFence key lvl) = fits32 key"

subsection \<open>The fence levels of a hash value, in the spec's words\<close>

text \<open>
  ``Starting at level 0 with a bit-count threshold of 27, test whether the low bits of
  the hash are all set; if not, decrement the threshold by 2 and test the next level.
  The first level at which the test succeeds is the key's shallowest fence level; the
  key is registered as a fence at that level and at every deeper level.''
\<close>

definition low_bits_set :: "32 word \<Rightarrow> nat \<Rightarrow> bool" where
  "low_bits_set h i = (take_bit (27 - 2 * i) h = mask (27 - 2 * i))"

definition shallowest_level :: "nat \<Rightarrow> 32 word \<Rightarrow> nat option" where
  "shallowest_level K h = List.find (low_bits_set h) [0 ..< K]"

definition fence_levels :: "externals \<Rightarrow> bytes \<Rightarrow> nat list" where
  "fence_levels X key =
     (case shallowest_level (kNumLevels X) (MurmurHash3_x86_32 X key murmur_seed) of
        None \<Rightarrow> []
      | Some l \<Rightarrow> [l ..< kNumLevels X])"

subsection \<open>Sequences of calls on an edit\<close>

datatype edit_call =
    Call_SetComparatorName bytes
  | Call_SetLogNumber "64 word"
  | Call_SetPrevLogNumber "64 word"
  | Call_SetNextFile "64 word"
  | Call_SetLastSequence "64 word"
  | Call_SetCompactPointer int InternalKey
  | Call_AddFile int "64 word" "64 word" InternalKey InternalKey
  | Call_RemoveFile int "64 word"
  | Call_AddFence int InternalKey
  | Call_AddCompleteFence int InternalKey
  | Call_DeleteFence int InternalKey
  | Call_AddSentinelFile int int "64 word" nat InternalKey InternalKey "64 word" int
  | Call_AddFileToSentinel FileMetaData int
  | Call_AddSentinelFileNo int "64 word"
  | Call_DeleteSentinelFile int "64 word"

fun apply_edit_call :: "externals \<Rightarrow> edit_call \<Rightarrow> VersionEdit \<Rightarrow> fault + VersionEdit" where
  "apply_edit_call X (Call_SetComparatorName name) e = Inr (SetComparatorName name e)"
| "apply_edit_call X (Call_SetLogNumber num) e = Inr (SetLogNumber num e)"
| "apply_edit_call X (Call_SetPrevLogNumber num) e = Inr (SetPrevLogNumber num e)"
| "apply_edit_call X (Call_SetNextFile num) e = Inr (SetNextFile num e)"
| "apply_edit_call X (Call_SetLastSequence seq) e = Inr (SetLastSequence seq e)"
| "apply_edit_call X (Call_SetCompactPointer lvl key) e = Inr (SetCompactPointer lvl key e)"
| "apply_edit_call X (Call_AddFile lvl file fsize sm lg) e = Inr (AddFile lvl file fsize sm lg e)"
| "apply_edit_call X (Call_RemoveFile lvl file) e = Inr (RemoveFile lvl file e)"
| "apply_edit_call X (Call_AddFence lvl key) e = AddFence X lvl key e"
| "apply_edit_call X (Call_AddCompleteFence lvl key) e = AddCompleteFence X lvl key e"
| "apply_edit_call X (Call_DeleteFence lvl key) e = DeleteFence lvl key e"
| "apply_edit_call X (Call_AddSentinelFile lvl seeks fsize f lg sm num rfs) e =
     AddSentinelFile X lvl seeks fsize f lg sm num rfs e"
| "apply_edit_call X (Call_AddFileToSentinel f lvl) e = AddFileToSentinel X f lvl e"
| "apply_edit_call X (Call_AddSentinelFileNo lvl no) e = AddSentinelFileNo X lvl no e"
| "apply_edit_call X (Call_DeleteSentinelFile lvl file) e = Inr (DeleteSentinelFile lvl file e)"

fun apply_edit_calls :: "externals \<Rightarrow> edit_call list \<Rightarrow> VersionEdit \<Rightarrow> fault + VersionEdit" where
  "apply_edit_calls X [] e = Inr e"
| "apply_edit_calls X (c # cs) e = bindF (apply_edit_call X c e) (apply_edit_calls X cs)"

subsection \<open>An instance of the parameters\<close>

text \<open>
  Seven levels, the enumerators 0, 1 and 2, keys that decode when they are not empty, a
  build that evaluates its assertions, and a stand-in for the hash that reads the first
  four bytes of the key.  The theorems hold for every value of the parameters; this one
  evaluates them.
\<close>

definition X_example :: externals where
  "X_example =
     \<lparr>kNumLevels = 7, kTypeDeletion = 0, kTypeValue = 1, kTypeFence = 2,
      InternalKey_valid = (\<lambda>s. s \<noteq> []),
      NDEBUG = False,
      MurmurHash3_x86_32 = (\<lambda>key seed. DecodeFixed32 key XOR seed)\<rparr>"

subsection \<open>Notions the theorems are stated with\<close>

text \<open>The three record tags are different, as the labels of one \<open>switch\<close> are.\<close>

definition tags_distinct :: "externals \<Rightarrow> bool" where
  "tags_distinct X = distinct [kTypeDeletion X, kTypeValue X, kTypeFence X]"

lemma read_record_length:
  "read_record X tag input1 = Inr (en, r) \<Longrightarrow> length r < length input1"
  by (auto simp: read_record_def split: if_splits option.splits
           dest!: GetLengthPrefixedSlice_length GetVarint32_length)


text \<open>
  The entries a record sequence decodes to, with the status the loop of \<open>Iterate\<close> leaves
  early with, if it does: \<open>Iterate_loop_parse\<close> below shows that the loop dispatches
  exactly these.
\<close>

function parse_entries :: "externals \<Rightarrow> bytes \<Rightarrow> Status option \<times> entry list" where
  "parse_entries X [] = (None, [])"
| "parse_entries X (tag # input1) =
     (case read_record X tag input1 of
        Inl st \<Rightarrow> (Some st, [])
      | Inr (en, r) \<Rightarrow> (case parse_entries X r of (st, ens) \<Rightarrow> (st, en # ens)))"
  by pat_completeness auto
termination
  by (relation "measure (\<lambda>(X, input). length input)") (auto dest!: read_record_length)

text \<open>
  The \<open>PutFence\<close> calls \<open>FenceInserter\<close> makes for one entry of the source batch, with
  the levels written in the spec's words.
\<close>

fun fence_calls :: "externals \<Rightarrow> entry \<Rightarrow> batch_call list" where
  "fence_calls X (ValueEntry key val) = map (\<lambda>l. Call_PutFence key (int l)) (fence_levels X key)"
| "fence_calls X (DeletionEntry key) = []"
| "fence_calls X (FenceEntry key lvl) = []"

fun is_fence :: "entry \<Rightarrow> bool" where
  "is_fence (FenceEntry key lvl) = True"
| "is_fence en = False"

text \<open>Calls on an empty batch, followed by a reading of it.\<close>

definition count_calls :: "externals \<Rightarrow> batch_call list \<Rightarrow> fault + int" where
  "count_calls X cs = bindF (apply_calls X cs Clear) Count"

definition size_calls :: "externals \<Rightarrow> batch_call list \<Rightarrow> fault + nat" where
  "size_calls X cs = bindF (apply_calls X cs Clear) (\<lambda>b. Inr (ApproximateSize b))"

definition replay_calls ::
  "externals \<Rightarrow> batch_call list \<Rightarrow> 's Handler \<Rightarrow> 's \<Rightarrow> fault + (Status \<times> 's)" where
  "replay_calls X cs h s = bindF (apply_calls X cs Clear) (\<lambda>b. Iterate X h b s)"

definition insert_calls ::
  "externals \<Rightarrow> 64 word \<Rightarrow> batch_call list \<Rightarrow> MemTable \<Rightarrow> fault + (Status \<times> MemTableInserter)" where
  "insert_calls X seq cs m =
     bindF (apply_calls X cs Clear) (\<lambda>b0. bindF (SetSequence b0 seq) (\<lambda>b. InsertInto X b m))"

definition giant_key :: bytes where
  "giant_key = 0 # 3 # replicate 4294967294 0"

definition many_deletes :: WriteBatch where
  "many_deletes =
     \<lparr>rep = replicate 8 0 @ EncodeFixed32 1073741824 @ concat (replicate 1073741824 [0, 0])\<rparr>"

definition example_key :: bytes where
  "example_key = [213, 255, 255, 1]"

definition batch_of_calls :: "externals \<Rightarrow> batch_call list \<Rightarrow> WriteBatch" where
  "batch_of_calls X cs =
     \<lparr>rep = replicate 8 0 @ EncodeFixed32 (word_of_nat (length cs))
             @ concat (map (record_bytes X) cs)\<rparr>"

subsection \<open>The records of an edit\<close>

text \<open>
  What \<open>EncodeTo\<close> writes, record by record (\<open>EncodeTo_items\<close> below), and what the
  \<open>switch\<close> of \<open>DecodeFrom\<close> stores for one such record (\<open>DecodeFrom_loop_item\<close>).
\<close>

datatype item =
    Item_Comparator bytes
  | Item_LogNumber "64 word"
  | Item_PrevLogNumber "64 word"
  | Item_NextFileNumber "64 word"
  | Item_LastSequence "64 word"
  | Item_CompactPointer int InternalKey
  | Item_DeletedFile int "64 word"
  | Item_NewFile int FileMetaData
  | Item_DeletedFence int InternalKey
  | Item_NewFence FenceMetaData
  | Item_NewCompleteFence FenceMetaData
  | Item_DeletedSentinelFile int "64 word"

fun item_bytes :: "item \<Rightarrow> bytes" where
  "item_bytes (Item_Comparator s) = PutLengthPrefixedSlice (PutVarint32 [] kComparator) s"
| "item_bytes (Item_LogNumber v) = PutVarint64 (PutVarint32 [] kLogNumber) v"
| "item_bytes (Item_PrevLogNumber v) = PutVarint64 (PutVarint32 [] kPrevLogNumber) v"
| "item_bytes (Item_NextFileNumber v) = PutVarint64 (PutVarint32 [] kNextFileNumber) v"
| "item_bytes (Item_LastSequence v) = PutVarint64 (PutVarint32 [] kLastSequence) v"
| "item_bytes (Item_CompactPointer lvl key) =
     PutLengthPrefixedSlice (PutVarint32 (PutVarint32 [] kCompactPointer) (word_of_int lvl))
       (Encode key)"
| "item_bytes (Item_DeletedFile lvl num) =
     PutVarint64 (PutVarint32 (PutVarint32 [] kDeletedFile) (word_of_int lvl)) num"
| "item_bytes (Item_NewFile lvl f) =
     PutLengthPrefixedSlice
       (PutLengthPrefixedSlice
          (PutVarint64
             (PutVarint64 (PutVarint32 (PutVarint32 [] kNewFile) (word_of_int lvl)) (number f))
             (file_size f))
          (Encode (smallest f)))
       (Encode (largest f))"
| "item_bytes (Item_DeletedFence lvl key) =
     PutLengthPrefixedSlice (PutVarint32 (PutVarint32 [] kDeletedFence) (word_of_int lvl))
       (Encode key)"
| "item_bytes (Item_NewFence f) =
     PutLengthPrefixedSlice
       (PutVarint64 (PutVarint32 (PutVarint32 [] kNewFence) (word_of_int (level f))) 0)
       (Encode (fence_key f))"
| "item_bytes (Item_NewCompleteFence f) =
     PutLengthPrefixedSlice
       (PutVarint64 (PutVarint32 (PutVarint32 [] kNewCompleteFence) (word_of_int (level f))) 0)
       (Encode (fence_key f))"
| "item_bytes (Item_DeletedSentinelFile lvl num) =
     PutVarint64 (PutVarint32 (PutVarint32 [] kDeletedSentinelFile) (word_of_int lvl)) num"

definition items_of :: "externals \<Rightarrow> VersionEdit \<Rightarrow> item list" where
  "items_of X e =
     (if has_comparator e then [Item_Comparator (comparator e)] else [])
     @ (if has_log_number e then [Item_LogNumber (log_number e)] else [])
     @ (if has_prev_log_number e then [Item_PrevLogNumber (prev_log_number e)] else [])
     @ (if has_next_file_number e then [Item_NextFileNumber (next_file_number e)] else [])
     @ (if has_last_sequence e then [Item_LastSequence (last_sequence e)] else [])
     @ map (\<lambda>p. Item_CompactPointer (fst p) (snd p)) (compact_pointers e)
     @ map (\<lambda>p. Item_DeletedFile (fst p) (snd p)) (deleted_files e)
     @ map (\<lambda>p. Item_NewFile (fst p) (snd p)) (new_files e)
     @ map (\<lambda>p. Item_DeletedFence (fst p) (snd p)) (deleted_fences e)
     @ concat (map (\<lambda>k. map Item_NewFence (new_fences e k)) [0 ..< kNumLevels X])
     @ concat (map (\<lambda>k. map Item_NewCompleteFence (new_complete_fences e k)) [0 ..< kNumLevels X])
     @ map (\<lambda>p. Item_DeletedSentinelFile (fst p) (snd p)) (deleted_sentinel_files e)"

text \<open>
  What \<open>BySmallestPair\<close> answers for two pairs of different levels.  \<open>store_item\<close> is
  what the \<open>switch\<close> stores for a record; for a deleted fence it is what the insertion
  gives when the set has no pair of the record's level (\<open>deleted_fences_insert_level\<close>
  below), the one case in which the insertion returns.
\<close>

definition level_less :: "FencePair \<Rightarrow> FencePair \<Rightarrow> bool" where
  "level_less p1 p2 = (fst p1 < fst p2)"

fun store_item :: "externals \<Rightarrow> item \<Rightarrow> VersionEdit \<Rightarrow> VersionEdit" where
  "store_item X (Item_Comparator s) e = e\<lparr>comparator := s, has_comparator := True\<rparr>"
| "store_item X (Item_LogNumber v) e = e\<lparr>log_number := v, has_log_number := True\<rparr>"
| "store_item X (Item_PrevLogNumber v) e = e\<lparr>prev_log_number := v, has_prev_log_number := True\<rparr>"
| "store_item X (Item_NextFileNumber v) e =
     e\<lparr>next_file_number := v, has_next_file_number := True\<rparr>"
| "store_item X (Item_LastSequence v) e = e\<lparr>last_sequence := v, has_last_sequence := True\<rparr>"
| "store_item X (Item_CompactPointer lvl key) e =
     e\<lparr>compact_pointers := compact_pointers e @ [(lvl, key)]\<rparr>"
| "store_item X (Item_DeletedFile lvl num) e =
     e\<lparr>deleted_files := set_insert file_pair_less (lvl, num) (deleted_files e)\<rparr>"
| "store_item X (Item_NewFile lvl f) e = e\<lparr>new_files := new_files e @ [(lvl, f)]\<rparr>"
| "store_item X (Item_DeletedFence lvl key) e =
     e\<lparr>deleted_fences := set_insert level_less (lvl, key) (deleted_fences e)\<rparr>"
| "store_item X (Item_NewFence f) e =
     e\<lparr>new_fences := (new_fences e)(nat (level f) := new_fences e (nat (level f)) @ [f])\<rparr>"
| "store_item X (Item_NewCompleteFence f) e =
     e\<lparr>new_complete_fences :=
         (new_complete_fences e)(nat (level f) := new_complete_fences e (nat (level f)) @ [f])\<rparr>"
| "store_item X (Item_DeletedSentinelFile lvl num) e =
     e\<lparr>deleted_sentinel_files := set_insert file_pair_less (lvl, num) (deleted_sentinel_files e)\<rparr>"

text \<open>The levels of the deleted-fence records of a list of records.\<close>

fun item_deleted_level :: "item \<Rightarrow> int list" where
  "item_deleted_level (Item_DeletedFence lvl key) = [lvl]"
| "item_deleted_level it = []"

definition deleted_levels :: "item list \<Rightarrow> int list" where
  "deleted_levels its = concat (map item_deleted_level its)"

fun item_fence :: "item \<Rightarrow> FenceMetaData \<Rightarrow> FenceMetaData" where
  "item_fence (Item_NewFence f) g = f"
| "item_fence (Item_NewCompleteFence f) g = f"
| "item_fence it g = g"

definition decode_item :: "externals \<Rightarrow> item \<Rightarrow> decoding \<Rightarrow> decoding" where
  "decode_item X it d = d\<lparr>d_edit := store_item X it (d_edit d), d_g := item_fence it (d_g d)\<rparr>"

text \<open>
  A key the decoder accepts and whose length fits the 32-bit prefix; a file and a fence as
  \<open>AddFile\<close>, \<open>AddFence\<close> and \<open>AddCompleteFence\<close> make them; a record whose level,
  keys and name have values the encoding can carry.
\<close>

definition key_ok :: "externals \<Rightarrow> InternalKey \<Rightarrow> bool" where
  "key_ok X k = (InternalKey_valid X k \<and> fits32 k)"

definition plain_file :: "FileMetaData \<Rightarrow> bool" where
  "plain_file f = (refs f = 0 \<and> allowed_seeks f = 2 ^ 30 \<and> fence f = 0)"

definition plain_fence :: "FenceMetaData \<Rightarrow> bool" where
  "plain_fence g =
     (fence_refs g = 0 \<and> number_segments g = 0 \<and> fence_smallest g = [] \<and> fence_largest g = []
      \<and> files g = [] \<and> file_metas g = [])"

fun item_ok :: "externals \<Rightarrow> item \<Rightarrow> bool" where
  "item_ok X (Item_Comparator s) = fits32 s"
| "item_ok X (Item_CompactPointer lvl key) = (in_levels X lvl \<and> key_ok X key)"
| "item_ok X (Item_DeletedFile lvl num) = in_levels X lvl"
| "item_ok X (Item_NewFile lvl f) =
     (in_levels X lvl \<and> key_ok X (smallest f) \<and> key_ok X (largest f) \<and> plain_file f)"
| "item_ok X (Item_DeletedFence lvl key) = (in_levels X lvl \<and> key_ok X key)"
| "item_ok X (Item_NewFence f) = (in_levels X (level f) \<and> key_ok X (fence_key f) \<and> plain_fence f)"
| "item_ok X (Item_NewCompleteFence f) =
     (in_levels X (level f) \<and> key_ok X (fence_key f) \<and> plain_fence f)"
| "item_ok X (Item_DeletedSentinelFile lvl num) = in_levels X lvl"
| "item_ok X it = True"

text \<open>The arguments of a call have values the encoding can carry.\<close>

fun edit_call_ok :: "externals \<Rightarrow> edit_call \<Rightarrow> bool" where
  "edit_call_ok X (Call_SetComparatorName name) = fits32 name"
| "edit_call_ok X (Call_SetCompactPointer lvl key) = (in_levels X lvl \<and> key_ok X key)"
| "edit_call_ok X (Call_AddFile lvl file fsize sm lg) =
     (in_levels X lvl \<and> key_ok X sm \<and> key_ok X lg)"
| "edit_call_ok X (Call_RemoveFile lvl file) = in_levels X lvl"
| "edit_call_ok X (Call_AddFence lvl key) = key_ok X key"
| "edit_call_ok X (Call_AddCompleteFence lvl key) = key_ok X key"
| "edit_call_ok X (Call_DeleteFence lvl key) = (in_levels X lvl \<and> key_ok X key)"
| "edit_call_ok X (Call_DeleteSentinelFile lvl file) = in_levels X lvl"
| "edit_call_ok X c = True"

text \<open>The level count is an \<open>int\<close>.\<close>

definition levels_ok :: "externals \<Rightarrow> bool" where
  "levels_ok X = (kNumLevels X < 2 ^ 31)"

text \<open>What holds of every edit the calls build.\<close>

definition scalars_ok :: "VersionEdit \<Rightarrow> bool" where
  "scalars_ok e =
     ((has_comparator e \<or> comparator e = [])
      \<and> (has_log_number e \<or> log_number e = 0)
      \<and> (has_prev_log_number e \<or> prev_log_number e = 0)
      \<and> (has_next_file_number e \<or> next_file_number e = 0)
      \<and> (has_last_sequence e \<or> last_sequence e = 0)
      \<and> fits32 (comparator e))"

definition pointers_ok :: "externals \<Rightarrow> (int \<times> InternalKey) list \<Rightarrow> bool" where
  "pointers_ok X ps = (\<forall>p \<in> set ps. in_levels X (fst p) \<and> key_ok X (snd p))"

definition file_set_ok :: "externals \<Rightarrow> (int \<times> 64 word) list \<Rightarrow> bool" where
  "file_set_ok X ps = (sorted_wrt file_pair_less ps \<and> (\<forall>p \<in> set ps. in_levels X (fst p)))"

definition new_files_ok :: "externals \<Rightarrow> (int \<times> FileMetaData) list \<Rightarrow> bool" where
  "new_files_ok X ps =
     (\<forall>p \<in> set ps. in_levels X (fst p) \<and> key_ok X (smallest (snd p))
                    \<and> key_ok X (largest (snd p)) \<and> plain_file (snd p))"

definition fence_set_ok :: "externals \<Rightarrow> (int \<times> InternalKey) list \<Rightarrow> bool" where
  "fence_set_ok X ps = (sorted_wrt level_less ps \<and> pointers_ok X ps)"

definition fences_ok :: "externals \<Rightarrow> (nat \<Rightarrow> FenceMetaData list) \<Rightarrow> bool" where
  "fences_ok X F =
     (\<forall>k. \<forall>f \<in> set (F k). level f = int k \<and> k < kNumLevels X \<and> key_ok X (fence_key f)
                             \<and> plain_fence f)"

definition edit_inv :: "externals \<Rightarrow> VersionEdit \<Rightarrow> bool" where
  "edit_inv X e =
     (scalars_ok e
      \<and> pointers_ok X (compact_pointers e)
      \<and> file_set_ok X (deleted_files e)
      \<and> new_files_ok X (new_files e)
      \<and> fence_set_ok X (deleted_fences e)
      \<and> fences_ok X (new_fences e)
      \<and> fences_ok X (new_complete_fences e)
      \<and> file_set_ok X (deleted_sentinel_files e))"

text \<open>Encoding an edit and decoding the bytes into a fresh edit.\<close>

definition decode_encoded :: "externals \<Rightarrow> VersionEdit \<Rightarrow> fault + (Status \<times> VersionEdit)" where
  "decode_encoded X e = DecodeFrom X (EncodeTo X e []) (VersionEdit_new X)"

text \<open>The state of \<open>DecodeFrom\<close> on entry to its loop.\<close>

definition decoding_init :: "externals \<Rightarrow> VersionEdit \<Rightarrow> decoding" where
  "decoding_init X e =
     \<lparr>d_edit = VersionEdit_Clear X e, d_g = FenceMetaData_init, d_tag2 = None, d_fnumber = None\<rparr>"

text \<open>
  The state of the loop of \<open>DecodeFrom\<close> after \<open>n\<close> rounds that stored a record each, and
  the input left.
\<close>

fun rounds :: "externals \<Rightarrow> nat \<Rightarrow> decoding \<Rightarrow> bytes \<Rightarrow> (decoding \<times> bytes) option" where
  "rounds X 0 d input = Some (d, input)"
| "rounds X (Suc n) d input =
     (case GetVarint32 input of
        None \<Rightarrow> None
      | Some (tag, input1) \<Rightarrow>
          (case DecodeFrom_switch X tag input1 d of
             Inr (None, input2, d2) \<Rightarrow> rounds X n d2 input2
           | _ \<Rightarrow> None))"

text \<open>The tags whose payload begins with a level.\<close>

definition level_tags :: "32 word list" where
  "level_tags =
     [kCompactPointer, kDeletedFile, kDeletedFence, kDeletedSentinelFile, kNewFile,
      kNewSentinelFile, kNewSentinelFileNo, kNewFence, kNewCompleteFence]"


text \<open>Building an edit by calls, encoding it, and decoding the bytes into a fresh edit.\<close>

definition roundtrip_calls :: "externals \<Rightarrow> edit_call list \<Rightarrow> fault + (Status \<times> VersionEdit)" where
  "roundtrip_calls X cs = bindF (apply_edit_calls X cs (VersionEdit_new X)) (decode_encoded X)"

definition example_edit_calls :: "edit_call list" where
  "example_edit_calls =
     [Call_SetComparatorName [99, 109, 112], Call_SetLogNumber 9, Call_SetNextFile 300,
      Call_SetCompactPointer 1 [7], Call_AddFile 2 11 4096 [1] [2], Call_RemoveFile 3 4,
      Call_RemoveFile 0 6, Call_AddFence 1 [5], Call_AddCompleteFence 2 [6],
      Call_DeleteFence 3 [8], Call_DeleteFence 1 [9], Call_DeleteSentinelFile 0 12]"

text \<open>
  The bytes of a fence record as \<open>DecodeFrom\<close> reads them: the tag, the level, the segment
  count and the fence key; after a count that is not zero, the smallest and the largest key;
  and the entries of the files inside a fence, each the tag \<open>kFileInsideFence\<close> and a file
  number.
\<close>

definition fence_record :: "32 word \<Rightarrow> 32 word \<Rightarrow> 64 word \<Rightarrow> InternalKey \<Rightarrow> bytes" where
  "fence_record tag lvl n key =
     PutLengthPrefixedSlice (PutVarint64 (PutVarint32 (PutVarint32 [] tag) lvl) n) (Encode key)"

definition key_pair :: "InternalKey \<Rightarrow> InternalKey \<Rightarrow> bytes" where
  "key_pair sm lg = PutLengthPrefixedSlice (PutLengthPrefixedSlice [] (Encode sm)) (Encode lg)"

definition file_entries :: "64 word list \<Rightarrow> bytes" where
  "file_entries fs = concat (map (\<lambda>f. PutVarint64 (PutVarint32 [] kFileInsideFence) f) fs)"

text \<open>
  The local \<open>g\<close> of \<open>DecodeFrom\<close> with the fields of a fence record written to it, and
  the same for a \<open>g\<close> that no earlier record wrote to.
\<close>

definition stored_fence ::
  "FenceMetaData \<Rightarrow> 32 word \<Rightarrow> 64 word \<Rightarrow> InternalKey \<Rightarrow> InternalKey \<Rightarrow> InternalKey \<Rightarrow>
   64 word list \<Rightarrow> FenceMetaData" where
  "stored_fence g lvl n key sm lg fs =
     g\<lparr>level := uint lvl, number_segments := n, fence_key := key,
       fence_smallest := sm, fence_largest := lg, files := fs\<rparr>"

definition decoded_fence ::
  "32 word \<Rightarrow> 64 word \<Rightarrow> InternalKey \<Rightarrow> InternalKey \<Rightarrow> InternalKey \<Rightarrow> 64 word list \<Rightarrow> FenceMetaData" where
  "decoded_fence lvl n key sm lg fs = stored_fence FenceMetaData_init lvl n key sm lg fs"

text \<open>The state of the loop of \<open>DecodeFrom\<close> after it pushed a fence \<open>g\<close>.\<close>

definition push_new_fence :: "FenceMetaData \<Rightarrow> decoding \<Rightarrow> decoding" where
  "push_new_fence g d =
     d\<lparr>d_edit := (d_edit d)\<lparr>new_fences :=
                    (new_fences (d_edit d))
                      (nat (level g) := new_fences (d_edit d) (nat (level g)) @ [g])\<rparr>,
       d_g := g\<rparr>"

definition push_complete_fence :: "FenceMetaData \<Rightarrow> decoding \<Rightarrow> decoding" where
  "push_complete_fence g d =
     d\<lparr>d_edit := (d_edit d)\<lparr>new_complete_fences :=
                    (new_complete_fences (d_edit d))
                      (nat (level g) := new_complete_fences (d_edit d) (nat (level g)) @ [g])\<rparr>,
       d_g := g\<rparr>"

text \<open>An edit whose only content is one fence, at a level.\<close>

definition one_fence :: "externals \<Rightarrow> nat \<Rightarrow> FenceMetaData \<Rightarrow> VersionEdit" where
  "one_fence X k g = (VersionEdit_new X)\<lparr>new_fences := (\<lambda>i. [])(k := [g])\<rparr>"

definition one_complete_fence :: "externals \<Rightarrow> nat \<Rightarrow> FenceMetaData \<Rightarrow> VersionEdit" where
  "one_complete_fence X k g = (VersionEdit_new X)\<lparr>new_complete_fences := (\<lambda>i. [])(k := [g])\<rparr>"

text \<open>The same instance for a build with \<open>NDEBUG\<close> defined.\<close>

definition X_release :: externals where
  "X_release = X_example\<lparr>NDEBUG := True\<rparr>"
section \<open>Properties of the encodings\<close>

lemma le_value_le_bytes: "le_value (le_bytes k v) = v mod 256 ^ k"
proof (induction k arbitrary: v)
  case 0
  then show ?case by simp
next
  case (Suc k)
  have "unat (byte_of (v mod 256)) = v mod 256"
    by (simp add: unat_byte_of)
  then show ?case using Suc
    by (simp add: mod_mult2_eq)
qed

lemma length_le_bytes [simp]: "length (le_bytes k v) = k"
  by (induction k arbitrary: v) auto

lemma length_EncodeFixed32 [simp]: "length (EncodeFixed32 v) = 4"
  by (simp add: EncodeFixed32_def)

lemma length_EncodeFixed64 [simp]: "length (EncodeFixed64 v) = 8"
  by (simp add: EncodeFixed64_def)

lemma DecodeFixed32_EncodeFixed32 [simp]: "DecodeFixed32 (EncodeFixed32 v @ rest) = v"
proof -
  have "unat v < 2 ^ 32" using unsigned_less [of v] by simp
  then have "unat v mod 256 ^ 4 = unat v" by simp
  then show ?thesis
    by (simp add: DecodeFixed32_def EncodeFixed32_def le_value_le_bytes)
qed

lemma DecodeFixed64_EncodeFixed64 [simp]: "DecodeFixed64 (EncodeFixed64 v @ rest) = v"
proof -
  have "unat v < 2 ^ 64" using unsigned_less [of v] by simp
  then have "unat v mod 256 ^ 8 = unat v" by simp
  then show ?thesis
    by (simp add: DecodeFixed64_def EncodeFixed64_def le_value_le_bytes)
qed

lemma varint_enc_nonempty: "varint_enc n \<noteq> []"
  by (subst varint_enc.simps) simp

lemma length_varint_enc: "0 < k \<Longrightarrow> n < 2 ^ (7 * k) \<Longrightarrow> length (varint_enc n) \<le> k"
proof (induction k arbitrary: n)
  case 0
  then show ?case by simp
next
  case (Suc k)
  show ?case
  proof (cases "n < 128")
    case True
    then show ?thesis by (subst varint_enc.simps) simp
  next
    case False
    then have "k \<noteq> 0" using Suc.prems by (cases k) auto
    moreover have "n div 128 < 2 ^ (7 * k)"
      using Suc.prems(2) by (simp add: less_mult_imp_div_less power_add mult.commute)
    ultimately have "length (varint_enc (n div 128)) \<le> k"
      using Suc.IH by simp
    with False show ?thesis by (subst varint_enc.simps) simp
  qed
qed

lemma get_varint_enc:
  "length (varint_enc n) \<le> k \<Longrightarrow> get_varint k s (varint_enc n @ rest) = Some (n * 2 ^ s, rest)"
proof (induction n arbitrary: k s rule: varint_enc.induct)
  case (1 n)
  show ?case
  proof (cases "n < 128")
    case True
    then have e: "varint_enc n = [byte_of n]" by (subst varint_enc.simps) simp
    from "1.prems" e obtain k' where k: "k = Suc k'" by (cases k) auto
    from True have "unat (byte_of n) = n" by (simp add: unat_byte_of)
    with True show ?thesis by (simp add: e k)
  next
    case False
    then have e: "varint_enc n = byte_of (128 + n mod 128) # varint_enc (n div 128)"
      by (subst varint_enc.simps) simp
    from "1.prems" e obtain k' where k: "k = Suc k'" and len: "length (varint_enc (n div 128)) \<le> k'"
      by (cases k) auto
    have u: "unat (byte_of (128 + n mod 128)) = 128 + n mod 128"
      by (simp add: unat_byte_of)
    have ih: "get_varint k' (s + 7) (varint_enc (n div 128) @ rest) = Some (n div 128 * 2 ^ (s + 7), rest)"
      using "1.IH" [OF False len] .
    have p: "(2::nat) ^ (s + 7) = 128 * 2 ^ s" by (simp add: power_add)
    have "n * 2 ^ s = (n mod 128 + n div 128 * 128) * 2 ^ s" by simp
    also have "\<dots> = n mod 128 * 2 ^ s + n div 128 * 2 ^ (s + 7)"
      unfolding p by (simp only: add_mult_distrib mult.assoc)
    finally have "n mod 128 * 2 ^ s + n div 128 * 2 ^ (s + 7) = n * 2 ^ s" by simp
    then show ?thesis by (simp add: e k u ih)
  qed
qed

lemma get_varint_truncated:
  "strict_prefix q (varint_enc n) \<Longrightarrow> get_varint k s q = None"
proof (induction n arbitrary: k s q rule: varint_enc.induct)
  case (1 n)
  show ?case
  proof (cases "n < 128")
    case True
    then have e: "varint_enc n = [byte_of n]" by (subst varint_enc.simps) simp
    with "1.prems" have "q = []" by (cases q) (auto simp: strict_prefix_def)
    then show ?thesis by (cases k) auto
  next
    case False
    then have e: "varint_enc n = byte_of (128 + n mod 128) # varint_enc (n div 128)"
      by (subst varint_enc.simps) simp
    have u: "unat (byte_of (128 + n mod 128)) = 128 + n mod 128"
      by (simp add: unat_byte_of)
    show ?thesis
    proof (cases q)
      case Nil
      then show ?thesis by (cases k) auto
    next
      case (Cons b q')
      with "1.prems" e have b: "b = byte_of (128 + n mod 128)" and q': "strict_prefix q' (varint_enc (n div 128))"
        by (auto simp: strict_prefix_def)
      show ?thesis
      proof (cases k)
        case 0
        then show ?thesis by simp
      next
        case (Suc k')
        have "get_varint k' (s + 7) q' = None" using "1.IH" [OF False q'] .
        then show ?thesis by (simp add: Suc Cons b u)
      qed
    qed
  qed
qed

lemma get_varint_append:
  "get_varint k s a = Some (v, r) \<Longrightarrow> get_varint k s (a @ b) = Some (v, r @ b)"
  by (induction k arbitrary: s a v) (auto split: list.splits if_splits option.splits)

lemma length_Varint32: "length (Varint32 v) \<le> 5"
proof -
  have "unat v < 2 ^ 32" using unsigned_less [of v] by simp
  then have "unat v < 2 ^ (7 * 5)" by simp
  then show ?thesis unfolding Varint32_def by (intro length_varint_enc) simp_all
qed

lemma length_Varint64: "length (Varint64 v) \<le> 10"
proof -
  have "unat v < 2 ^ 64" using unsigned_less [of v] by simp
  then have "unat v < 2 ^ (7 * 10)" by simp
  then show ?thesis unfolding Varint64_def by (intro length_varint_enc) simp_all
qed

lemma Varint32_nonempty [simp]: "Varint32 v \<noteq> []"
  by (simp add: Varint32_def varint_enc_nonempty)

lemma Varint64_nonempty [simp]: "Varint64 v \<noteq> []"
  by (simp add: Varint64_def varint_enc_nonempty)

lemma GetVarint32_Varint32 [simp]: "GetVarint32 (Varint32 v @ rest) = Some (v, rest)"
  using get_varint_enc [of "unat v" 5 0 rest] length_Varint32 [of v]
  by (simp add: GetVarint32_def Varint32_def)

lemma GetVarint64_Varint64 [simp]: "GetVarint64 (Varint64 v @ rest) = Some (v, rest)"
  using get_varint_enc [of "unat v" 10 0 rest] length_Varint64 [of v]
  by (simp add: GetVarint64_def Varint64_def)

lemma GetVarint32_Varint32' [simp]: "GetVarint32 (Varint32 v) = Some (v, [])"
  using GetVarint32_Varint32 [of v "[]"] by simp

lemma GetVarint64_Varint64' [simp]: "GetVarint64 (Varint64 v) = Some (v, [])"
  using GetVarint64_Varint64 [of v "[]"] by simp

lemma GetLengthPrefixedSlice_LengthPrefixed [simp]:
  "fits32 s \<Longrightarrow> GetLengthPrefixedSlice (LengthPrefixed s @ rest) = Some (s, rest)"
proof -
  assume "fits32 s"
  then have "unat (word_of_nat (length s) :: 32 word) = length s"
    by (simp add: fits32_def unat_of_nat)
  then show ?thesis
    by (simp add: GetLengthPrefixedSlice_def LengthPrefixed_def)
qed

lemma GetLengthPrefixedSlice_LengthPrefixed' [simp]:
  "fits32 s \<Longrightarrow> GetLengthPrefixedSlice (LengthPrefixed s) = Some (s, [])"
  using GetLengthPrefixedSlice_LengthPrefixed [of s "[]"] by simp

lemma GetVarint32_append:
  assumes "GetVarint32 a = Some (v, r)"
  shows "GetVarint32 (a @ b) = Some (v, r @ b)"
proof -
  from assms obtain n where n: "get_varint 5 0 a = Some (n, r)" and v: "v = word_of_nat n"
    by (auto simp: GetVarint32_def split: option.splits)
  from get_varint_append [OF n, of b] v show ?thesis
    by (simp add: GetVarint32_def)
qed

lemma GetVarint64_append:
  assumes "GetVarint64 a = Some (v, r)"
  shows "GetVarint64 (a @ b) = Some (v, r @ b)"
proof -
  from assms obtain n where n: "get_varint 10 0 a = Some (n, r)" and v: "v = word_of_nat n"
    by (auto simp: GetVarint64_def split: option.splits)
  from get_varint_append [OF n, of b] v show ?thesis
    by (simp add: GetVarint64_def)
qed

lemma GetLengthPrefixedSlice_append:
  assumes "GetLengthPrefixedSlice a = Some (v, r)"
  shows "GetLengthPrefixedSlice (a @ b) = Some (v, r @ b)"
proof -
  from assms obtain len r0 where g: "GetVarint32 a = Some (len, r0)"
    and le: "unat len \<le> length r0" and v: "v = take (unat len) r0" and r: "r = drop (unat len) r0"
    by (auto simp: GetLengthPrefixedSlice_def split: option.splits if_splits)
  from GetVarint32_append [OF g, of b] le v r show ?thesis
    by (simp add: GetLengthPrefixedSlice_def)
qed

lemma GetLengthPrefixedSlice_fits:
  assumes "GetLengthPrefixedSlice a = Some (v, r)"
  shows "fits32 v"
proof -
  from assms obtain len :: "32 word" and r0 where "v = take (unat len) r0"
    by (auto simp: GetLengthPrefixedSlice_def split: option.splits if_splits)
  then have "length v \<le> unat len" by simp
  moreover have "unat len < 2 ^ 32" using unsigned_less [of len] by simp
  ultimately show ?thesis by (simp add: fits32_def)
qed

lemma GetVarint32_truncated:
  "strict_prefix q (Varint32 v) \<Longrightarrow> GetVarint32 q = None"
  by (simp add: GetVarint32_def Varint32_def get_varint_truncated)

lemma GetVarint64_truncated:
  "strict_prefix q (Varint64 v) \<Longrightarrow> GetVarint64 q = None"
  by (simp add: GetVarint64_def Varint64_def get_varint_truncated)

lemma strict_prefix_append_cases:
  "strict_prefix q (a @ b) \<Longrightarrow> strict_prefix q a \<or> (\<exists>q'. q = a @ q' \<and> strict_prefix q' b)"
  by (auto simp: strict_prefix_def prefix_append)

lemma GetLengthPrefixedSlice_truncated:
  assumes "fits32 s" "strict_prefix q (LengthPrefixed s)"
  shows "GetLengthPrefixedSlice q = None"
proof -
  from assms(2) consider "strict_prefix q (Varint32 (word_of_nat (length s)))"
    | q' where "q = Varint32 (word_of_nat (length s)) @ q'" "strict_prefix q' s"
    unfolding LengthPrefixed_def by (auto dest: strict_prefix_append_cases)
  then show ?thesis
  proof cases
    case 1
    then show ?thesis by (simp add: GetLengthPrefixedSlice_def GetVarint32_truncated)
  next
    case 2
    from assms(1) have u: "unat (word_of_nat (length s) :: 32 word) = length s"
      by (simp add: fits32_def unat_of_nat)
    from 2(2) have "length q' < length s"
      by (metis prefix_length_less)
    with 2(1) u show ?thesis by (simp add: GetLengthPrefixedSlice_def)
  qed
qed

section \<open>Properties of the write batch\<close>

lemma bindF_Inr [simp]: "bindF (Inr x) f = f x"
  by (simp add: bindF_def)

lemma bindF_Inl [simp]: "bindF (Inl e) f = Inl e"
  by (simp add: bindF_def)

lemma Iterate_loop_Nil [simp]: "Iterate_loop X h [] found s = Inr (None, found, s)"
  by (simp add: Iterate_loop.simps)

lemma Iterate_loop_Cons:
  "Iterate_loop X h (tag # input1) found s =
     (case read_record X tag input1 of
        Inl st \<Rightarrow> Inr (Some st, found + 1, s)
      | Inr (en, r) \<Rightarrow>
          (case dispatch h en s of
             Inl e \<Rightarrow> Inl e
           | Inr s' \<Rightarrow> Iterate_loop X h r (found + 1) s'))"
  by (subst Iterate_loop.simps) (simp add: read_record_def split: option.splits)

lemma read_record_append:
  "read_record X tag input1 = Inr (en, r) \<Longrightarrow> read_record X tag (input1 @ b) = Inr (en, r @ b)"
  by (auto simp: read_record_def GetLengthPrefixedSlice_append GetVarint32_append
           split: if_splits option.splits)

lemma read_record_record_bytes:
  assumes "tags_distinct X" "call_fits c"
  shows "read_record X (hd (record_bytes X c)) (tl (record_bytes X c) @ rest) = Inr (entry_of_call c, rest)"
  using assms
  by (cases c)
     (auto simp: read_record_def tags_distinct_def PutLengthPrefixedSlice_def PutVarint32_def)

lemma record_bytes_Cons: "record_bytes X c = hd (record_bytes X c) # tl (record_bytes X c)"
  by (cases c) (simp_all add: PutLengthPrefixedSlice_def PutVarint32_def)

lemma Iterate_loop_record_bytes:
  assumes "tags_distinct X" "call_fits c"
  shows "Iterate_loop X h (record_bytes X c @ rest) found s =
           (case dispatch h (entry_of_call c) s of
              Inl e \<Rightarrow> Inl e
            | Inr s' \<Rightarrow> Iterate_loop X h rest (found + 1) s')"
proof -
  have "Iterate_loop X h (record_bytes X c @ rest) found s =
        Iterate_loop X h (hd (record_bytes X c) # (tl (record_bytes X c) @ rest)) found s"
    by (subst record_bytes_Cons) simp
  then show ?thesis
    by (simp add: Iterate_loop_Cons read_record_record_bytes [OF assms])
qed

lemma Iterate_loop_calls:
  assumes "tags_distinct X" "\<forall>c \<in> set cs. call_fits c"
  shows "Iterate_loop X h (concat (map (record_bytes X) cs) @ rest) found s =
           (case dispatch_all h (map entry_of_call cs) s of
              Inl e \<Rightarrow> Inl e
            | Inr s' \<Rightarrow> Iterate_loop X h rest (found + int (length cs)) s')"
  using assms(2)
proof (induction cs arbitrary: found s)
  case Nil
  then show ?case by simp
next
  case (Cons c cs)
  then have c: "call_fits c" and cs: "\<forall>c \<in> set cs. call_fits c" by auto
  show ?case
  proof (cases "dispatch h (entry_of_call c) s")
    case (Inl e)
    then show ?thesis
      by (simp add: Iterate_loop_record_bytes [OF assms(1) c])
  next
    case (Inr s')
    have f: "found + 1 + int (length cs) = found + int (length (c # cs))" by simp
    from Inr show ?thesis
      using Cons.IH [OF cs, of "found + 1" s']
      by (simp add: Iterate_loop_record_bytes [OF assms(1) c] add.assoc split: sum.splits)
  qed
qed

text \<open>The header of a batch.\<close>

lemma le_value_bound: "le_value bs < 256 ^ length bs"
proof (induction bs)
  case Nil
  then show ?case by simp
next
  case (Cons b bs)
  have "unat b < 256" using unsigned_less [of b] by simp
  with Cons show ?case by simp
qed

lemma byte_of_unat [simp]: "byte_of (unat b) = b"
  by (simp add: byte_of_def)

lemma le_bytes_le_value: "length bs = k \<Longrightarrow> le_bytes k (le_value bs) = bs"
proof (induction bs arbitrary: k)
  case Nil
  then show ?case by simp
next
  case (Cons b bs)
  then obtain k' where k: "k = Suc k'" and l: "length bs = k'" by (cases k) auto
  have u: "unat b < 256" using unsigned_less [of b] by simp
  then have m: "(unat b + 256 * le_value bs) mod 256 = unat b" by simp
  from u have d: "(unat b + 256 * le_value bs) div 256 = le_value bs" by simp
  show ?case using Cons.IH [OF l] u by (simp add: k d)
qed

lemma EncodeFixed32_DecodeFixed32:
  assumes "4 \<le> length p"
  shows "EncodeFixed32 (DecodeFixed32 p) = take 4 p"
proof -
  have l: "length (take 4 p) = 4" using assms by simp
  have "le_value (take 4 p) < 256 ^ 4" using le_value_bound [of "take 4 p"] l by simp
  then have "unat (word_of_nat (le_value (take 4 p)) :: 32 word) = le_value (take 4 p)"
    by (simp add: unat_of_nat)
  then show ?thesis
    using le_bytes_le_value [OF l] by (simp add: EncodeFixed32_def DecodeFixed32_def)
qed

lemma header_split:
  assumes "12 \<le> length r"
  shows "take 8 r @ take 4 (drop 8 r) @ drop 12 r = r"
proof -
  have "take 12 r = take (8 + 4) r" by simp
  also have "\<dots> = take 8 r @ take 4 (drop 8 r)" by (simp only: take_add)
  finally have "take 8 r @ take 4 (drop 8 r) @ drop 12 r = take 12 r @ drop 12 r" by simp
  then show ?thesis by simp
qed

lemma apply_call_rep:
  assumes "12 \<le> length (rep b)"
  shows "apply_call X c b =
           Inr \<lparr>rep = take 8 (rep b) @ EncodeFixed32 (DecodeFixed32 (drop 8 (rep b)) + 1)
                       @ drop 12 (rep b) @ record_bytes X c\<rparr>"
  using assms
  by (cases c)
     (simp_all add: Put_def Delete_def PutFence_def Count_def SetCount_def
                    PutLengthPrefixedSlice_def PutVarint32_def)

lemma apply_calls_rep:
  assumes "12 \<le> length (rep b)"
  shows "apply_calls X cs b =
           Inr \<lparr>rep = take 8 (rep b)
                       @ EncodeFixed32 (DecodeFixed32 (drop 8 (rep b)) + word_of_nat (length cs))
                       @ drop 12 (rep b) @ concat (map (record_bytes X) cs)\<rparr>"
  using assms
proof (induction cs arbitrary: b)
  case Nil
  then have "4 \<le> length (drop 8 (rep b))" by simp
  then show ?case
    using header_split [OF Nil] by (simp add: EncodeFixed32_DecodeFixed32)
next
  case (Cons c cs)
  let ?w = "DecodeFixed32 (drop 8 (rep b))"
  let ?r1 = "take 8 (rep b) @ EncodeFixed32 (?w + 1) @ drop 12 (rep b) @ record_bytes X c"
  have m: "min (length (rep b)) 8 = 8" using Cons.prems by simp
  have l8: "length (take 8 (rep b)) = 8" using Cons.prems by simp
  have l: "12 \<le> length (rep \<lparr>rep = ?r1\<rparr>)" using Cons.prems by simp
  have t: "take 8 ?r1 = take 8 (rep b)" using m by simp
  have d8: "drop 8 ?r1 = EncodeFixed32 (?w + 1) @ drop 12 (rep b) @ record_bytes X c"
    using m by simp
  have d12: "drop 12 ?r1 = drop 12 (rep b) @ record_bytes X c"
  proof -
    have "drop 12 ?r1 = drop 4 (drop 8 ?r1)" by (simp only: drop_drop) simp
    also have "\<dots> = drop 12 (rep b) @ record_bytes X c" unfolding d8 by simp
    finally show ?thesis .
  qed
  have w: "?w + 1 + word_of_nat (length cs) = ?w + word_of_nat (length (c # cs))"
    by simp
  have "apply_calls X (c # cs) b = apply_calls X cs \<lparr>rep = ?r1\<rparr>"
    by (simp add: apply_call_rep [OF Cons.prems])
  also have "\<dots> = Inr \<lparr>rep = take 8 ?r1
                       @ EncodeFixed32 (DecodeFixed32 (drop 8 ?r1) + word_of_nat (length cs))
                       @ drop 12 ?r1 @ concat (map (record_bytes X) cs)\<rparr>"
    using Cons.IH [OF l] by simp
  also have "\<dots> = Inr \<lparr>rep = take 8 (rep b)
                       @ EncodeFixed32 (?w + word_of_nat (length (c # cs)))
                       @ drop 12 (rep b) @ concat (map (record_bytes X) (c # cs))\<rparr>"
    unfolding t d12 unfolding d8 DecodeFixed32_EncodeFixed32 w by simp
  finally show ?case .
qed

lemma sint_word_of_int_small:
  assumes "- (2 ^ 31) \<le> x" "x < 2 ^ 31"
  shows "sint (word_of_int x :: 32 word) = x"
proof -
  have "(x + 2 ^ 31) mod 2 ^ 32 = x + 2 ^ 31"
    using assms by (intro mod_pos_pos_trivial) simp_all
  then show ?thesis by (simp add: int_word_sint)
qed

lemma Count_rep:
  "length h8 = 8 \<Longrightarrow> Count \<lparr>rep = h8 @ EncodeFixed32 w @ body\<rparr> = Inr (sint w)"
  by (simp add: Count_def)

lemma Iterate_calls:
  assumes "tags_distinct X" "\<forall>c \<in> set cs. call_fits c" "length cs < 2 ^ 31"
  shows "\<exists>b. apply_calls X cs Clear = Inr b
           \<and> Count b = Inr (int (length cs))
           \<and> ApproximateSize b = 12 + length (concat (map (record_bytes X) cs))
           \<and> (\<forall>(h :: 's Handler) s. Iterate X h b s =
                 bindF (dispatch_all h (map entry_of_call cs) s) (\<lambda>s'. Inr (OK, s')))"
proof -
  let ?w = "word_of_nat (length cs) :: 32 word"
  let ?b = "\<lparr>rep = replicate 8 0 @ EncodeFixed32 ?w @ concat (map (record_bytes X) cs)\<rparr>"
  have z: "DecodeFixed32 (replicate 4 0) = 0"
    by (simp add: DecodeFixed32_def numeral_eq_Suc)
  have b: "apply_calls X cs Clear = Inr ?b"
    using apply_calls_rep [of Clear X cs] by (simp add: Clear_def kHeader_def z)
  have sw: "sint ?w = int (length cs)"
    using assms(3) sint_word_of_int_small [of "int (length cs)"] by simp
  have c: "Count ?b = Inr (int (length cs))"
    using Count_rep [of "replicate 8 0" ?w] sw by simp
  have i: "Iterate X h ?b s = bindF (dispatch_all h (map entry_of_call cs) s) (\<lambda>s'. Inr (OK, s'))"
    for h :: "'s Handler" and s
    using Iterate_loop_calls [OF assms(1,2), of h "[]" 0 s] c
    by (simp add: Iterate_def kHeader_def split: sum.splits)
  show ?thesis
    using b c i by (simp add: ApproximateSize_def)
qed

lemma Iterate_loop_parse:
  "Iterate_loop X h input found s =
     (case parse_entries X input of
        (st, ens) \<Rightarrow>
          (case dispatch_all h ens s of
             Inl e \<Rightarrow> Inl e
           | Inr s' \<Rightarrow> Inr (st, found + int (length ens) + (if st = None then 0 else 1), s')))"
proof (induction X input arbitrary: found s rule: parse_entries.induct)
  case (1 X)
  then show ?case by simp
next
  case (2 X tag input1)
  show ?case
  proof (cases "read_record X tag input1")
    case (Inl st)
    then show ?thesis by (simp add: Iterate_loop_Cons)
  next
    case (Inr p)
    obtain en r where p: "p = (en, r)" by (cases p)
    obtain st ens where pe: "parse_entries X r = (st, ens)" by (cases "parse_entries X r")
    show ?thesis
    proof (cases "dispatch h en s")
      case (Inl e)
      with Inr p pe show ?thesis by (simp add: Iterate_loop_Cons)
    next
      case s': (Inr s')
      have "Iterate_loop X h r (found + 1) s' =
              (case dispatch_all h ens s' of
                 Inl e \<Rightarrow> Inl e
               | Inr s'' \<Rightarrow> Inr (st, found + 1 + int (length ens) + (if st = None then 0 else 1), s''))"
        using "2.IH" [OF Inr p [symmetric], of "found + 1" s'] pe by simp
      with Inr p pe s' show ?thesis
        by (simp add: Iterate_loop_Cons add.assoc split: sum.splits)
    qed
  qed
qed

lemma dispatch_all_Recorder [simp]: "dispatch_all Recorder ens acc = Inr (acc @ ens)"
proof (induction ens arbitrary: acc)
  case Nil
  then show ?case by simp
next
  case (Cons en ens)
  then show ?case by (cases en) (simp_all add: Recorder_def)
qed

lemma read_record_not_OK: "read_record X tag input1 \<noteq> Inl OK"
  by (simp add: read_record_def split: option.splits)

lemma parse_entries_not_OK: "parse_entries X input \<noteq> (Some OK, ens)"
proof (induction X input arbitrary: ens rule: parse_entries.induct)
  case (1 X)
  then show ?case by simp
next
  case (2 X tag input1)
  show ?case
  proof (cases "read_record X tag input1")
    case (Inl st)
    with read_record_not_OK [of X tag input1] show ?thesis by auto
  next
    case (Inr p)
    obtain en r where p: "p = (en, r)" by (cases p)
    from "2.IH" [OF Inr p [symmetric]] Inr p show ?thesis
      by (auto split: prod.splits)
  qed
qed

lemma holds_entries_iff:
  "holds_entries X b ens \<longleftrightarrow>
     12 \<le> length (rep b) \<and> parse_entries X (drop 12 (rep b)) = (None, ens)
     \<and> Count b = Inr (int (length ens))"
proof (cases "12 \<le> length (rep b)")
  case False
  then show ?thesis by (simp add: holds_entries_def Iterate_def kHeader_def)
next
  case True
  obtain st es where pe: "parse_entries X (drop 12 (rep b)) = (st, es)"
    by (cases "parse_entries X (drop 12 (rep b))")
  from True obtain n where n: "Count b = Inr n" by (simp add: Count_def)
  show ?thesis
    using True pe n parse_entries_not_OK [of X "drop 12 (rep b)" ens]
    by (cases st) (auto simp: holds_entries_def Iterate_def kHeader_def Iterate_loop_parse)
qed

lemma Iterate_holds:
  assumes "holds_entries X b ens"
  shows "Iterate X h b s = bindF (dispatch_all h ens s) (\<lambda>s'. Inr (OK, s'))"
  using assms unfolding holds_entries_iff
  by (auto simp: Iterate_def kHeader_def Iterate_loop_parse split: sum.splits)

lemma parse_entries_append:
  "parse_entries X a = (None, ea) \<Longrightarrow>
   parse_entries X (a @ b) = (case parse_entries X b of (st, eb) \<Rightarrow> (st, ea @ eb))"
proof (induction X a arbitrary: ea rule: parse_entries.induct)
  case (1 X)
  then show ?case by (simp split: prod.splits)
next
  case (2 X tag input1)
  from "2.prems" obtain en r ens where rr: "read_record X tag input1 = Inr (en, r)"
    and pe: "parse_entries X r = (None, ens)" and ea: "ea = en # ens"
    by (auto split: sum.splits prod.splits)
  from "2.IH" [OF rr refl pe] read_record_append [OF rr, of b] ea show ?case
    by (simp split: prod.splits)
qed

lemma parse_entries_fits:
  "parse_entries X input = (st, ens) \<Longrightarrow> ValueEntry key val \<in> set ens \<Longrightarrow> fits32 key \<and> fits32 val"
proof (induction X input arbitrary: st ens rule: parse_entries.induct)
  case (1 X)
  then show ?case by simp
next
  case (2 X tag input1)
  show ?case
  proof (cases "read_record X tag input1")
    case (Inl a)
    with "2.prems" show ?thesis by simp
  next
    case (Inr p)
    obtain en r where p: "p = (en, r)" by (cases p)
    obtain st' ens' where pe: "parse_entries X r = (st', ens')" by (cases "parse_entries X r")
    from "2.prems" Inr p pe have ens: "ens = en # ens'" by simp
    show ?thesis
    proof (cases "ValueEntry key val = en")
      case True
      with Inr p show ?thesis
        by (auto simp: read_record_def split: if_splits option.splits
                 dest: GetLengthPrefixedSlice_fits)
    next
      case False
      with "2.prems"(2) ens have "ValueEntry key val \<in> set ens'" by auto
      from "2.IH" [OF Inr p [symmetric] pe this] show ?thesis .
    qed
  qed
qed

lemma apply_calls_length:
  assumes "12 \<le> length (rep b)" "apply_calls X cs b = Inr b'"
  shows "12 \<le> length (rep b')"
  using assms(2) unfolding apply_calls_rep [OF assms(1)] using assms(1) by auto

lemma apply_calls_append:
  "apply_calls X (cs @ ds) b = bindF (apply_calls X cs b) (apply_calls X ds)"
proof (induction cs arbitrary: b)
  case Nil
  then show ?case by simp
next
  case (Cons c cs)
  then show ?case by (cases "apply_call X c b") simp_all
qed

lemma insert_from_calls:
  assumes "12 \<le> length (rep (new_batch s))"
  shows "\<exists>s'. insert_from X key j s = Inr s'
           \<and> apply_calls X (map (\<lambda>l. Call_PutFence key (int l)) [j ..< kNumLevels X]) (new_batch s)
               = Inr (new_batch s')
           \<and> f_sequence s' = f_sequence s"
  using assms
proof (induction X key j s rule: insert_from.induct)
  case (1 X key j s)
  show ?case
  proof (cases "j < kNumLevels X")
    case False
    then show ?thesis by (subst insert_from.simps) simp
  next
    case True
    obtain nb where nb: "PutFence X (new_batch s) key (int j) = Inr nb"
      using apply_call_rep [OF "1.prems", of X "Call_PutFence key (int j)"] by simp
    then have "apply_calls X [Call_PutFence key (int j)] (new_batch s) = Inr nb" by simp
    from apply_calls_length [OF "1.prems" this] have l: "12 \<le> length (rep nb)" .
    let ?s1 = "s\<lparr>new_batch := nb, num_guards := (num_guards s)(j := num_guards s j + 1)\<rparr>"
    from l have "12 \<le> length (rep (new_batch ?s1))" by simp
    from "1.IH" [OF True nb this] obtain s' where
      s': "insert_from X key (j + 1) ?s1 = Inr s'"
      "apply_calls X (map (\<lambda>l. Call_PutFence key (int l)) [j + 1 ..< kNumLevels X]) nb
         = Inr (new_batch s')"
      "f_sequence s' = f_sequence s"
      by auto
    have "insert_from X key j s = Inr s'"
      using True nb s'(1) by (subst insert_from.simps) simp
    moreover have "[j ..< kNumLevels X] = j # [j + 1 ..< kNumLevels X]"
      using True by (simp add: upt_conv_Cons)
    ultimately show ?thesis using nb s'(2,3) by simp
  qed
qed

lemma set_mask_ok:
  assumes "0 < n" "n < 32"
  shows "set_mask (word_of_nat n) s = Inr (s\<lparr>bit_mask := mask n\<rparr>)"
proof -
  have u: "unat (word_of_nat n :: 32 word) = n" using assms by (simp add: unat_of_nat)
  have "0 < (word_of_nat n :: 32 word)" using u assms by (simp add: word_less_nat_alt)
  moreover have "(word_of_nat n :: 32 word) < 32" using u assms by (simp add: word_less_nat_alt)
  moreover have "push_bit n 1 - 1 = (mask n :: 32 word)" by (simp add: mask_eq_exp_minus_1)
  ultimately show ?thesis by (simp add: set_mask_def u)
qed

lemma scan_levels_calls:
  assumes "kNumLevels X \<le> 14" "12 \<le> length (rep (new_batch s))"
    "i < kNumLevels X \<longrightarrow> num_bits = word_of_nat (27 - 2 * i)"
  shows "\<exists>s'. scan_levels X key h i num_bits s = Inr s'
           \<and> apply_calls X
                (map (\<lambda>l. Call_PutFence key (int l))
                   (case List.find (low_bits_set h) [i ..< kNumLevels X] of
                      None \<Rightarrow> [] | Some l \<Rightarrow> [l ..< kNumLevels X]))
                (new_batch s) = Inr (new_batch s')
           \<and> f_sequence s' = f_sequence s"
  using assms
proof (induction X key h i num_bits s rule: scan_levels.induct)
  case (1 X key h i num_bits s)
  show ?case
  proof (cases "i < kNumLevels X")
    case False
    then show ?thesis by (subst scan_levels.simps) simp
  next
    case True
    with "1.prems" have i: "i \<le> 13" and nb: "num_bits = word_of_nat (27 - 2 * i)" by auto
    let ?n = "27 - 2 * i"
    let ?s1 = "s\<lparr>bit_mask := mask ?n\<rparr>"
    have sm: "set_mask num_bits s = Inr ?s1"
      unfolding nb using i by (intro set_mask_ok) auto
    have up: "[i ..< kNumLevels X] = i # [i + 1 ..< kNumLevels X]"
      using True by (simp add: upt_conv_Cons)
    have c: "(h AND mask ?n = mask ?n) = low_bits_set h i"
      by (simp add: low_bits_set_def take_bit_eq_mask)
    show ?thesis
    proof (cases "low_bits_set h i")
      case lb: True
      have "scan_levels X key h i num_bits s = insert_from X key i ?s1"
        using True sm c lb by (subst scan_levels.simps) simp
      moreover have "12 \<le> length (rep (new_batch ?s1))" using "1.prems"(2) by simp
      from insert_from_calls [OF this, of X key i]
      obtain s' where "insert_from X key i ?s1 = Inr s'"
        "apply_calls X (map (\<lambda>l. Call_PutFence key (int l)) [i ..< kNumLevels X]) (new_batch s)
          = Inr (new_batch s')" "f_sequence s' = f_sequence s"
        by auto
      ultimately show ?thesis using lb by (subst up) simp
    next
      case lb: False
      have sc: "scan_levels X key h i num_bits s
                = scan_levels X key h (i + 1) (num_bits - bit_decrement) ?s1"
        using True sm c lb by (subst scan_levels.simps) simp
      have n': "i + 1 < kNumLevels X \<longrightarrow> num_bits - bit_decrement = word_of_nat (27 - 2 * (i + 1))"
      proof
        assume "i + 1 < kNumLevels X"
        with "1.prems"(1) have "2 \<le> 27 - 2 * i" by simp
        then have "27 - 2 * i = 2 + (27 - 2 * (i + 1))" by simp
        then have "(word_of_nat (27 - 2 * i) :: 32 word) = 2 + word_of_nat (27 - 2 * (i + 1))"
          by (metis of_nat_add of_nat_numeral)
        then show "num_bits - bit_decrement = word_of_nat (27 - 2 * (i + 1))"
          by (simp add: nb bit_decrement_def)
      qed
      have l: "12 \<le> length (rep (new_batch ?s1))" using "1.prems"(2) by simp
      have cc: "(h AND bit_mask ?s1 = bit_mask ?s1) = False" using c lb by simp
      from "1.IH" [OF True sm cc [THEN eq_False [THEN iffD1]] "1.prems"(1) l n']
      obtain s' where "scan_levels X key h (i + 1) (num_bits - bit_decrement) ?s1 = Inr s'"
        "apply_calls X
                (map (\<lambda>l. Call_PutFence key (int l))
                   (case List.find (low_bits_set h) [i + 1 ..< kNumLevels X] of
                      None \<Rightarrow> [] | Some l \<Rightarrow> [l ..< kNumLevels X]))
                (new_batch s) = Inr (new_batch s')" "f_sequence s' = f_sequence s"
        by auto
      then show ?thesis using sc lb by (subst up) simp
    qed
  qed
qed

lemma FenceInserter_Put_calls:
  assumes "kNumLevels X \<le> 14" "12 \<le> length (rep (new_batch s))"
  shows "\<exists>s'. FenceInserter_Put X key val s = Inr s'
           \<and> apply_calls X (fence_calls X (ValueEntry key val)) (new_batch s) = Inr (new_batch s')"
proof -
  have "0 < kNumLevels X \<longrightarrow> top_level_bits = word_of_nat (27 - 2 * 0)"
    by (simp add: top_level_bits_def)
  from scan_levels_calls [OF assms this, of key "MurmurHash3_x86_32 X key murmur_seed"]
  show ?thesis
    by (auto simp: FenceInserter_Put_def fence_levels_def shallowest_level_def Let_def)
qed

lemma FenceInserter_dispatch_all:
  assumes "kNumLevels X \<le> 14" "12 \<le> length (rep (new_batch s))" "\<forall>en \<in> set ens. \<not> is_fence en"
  shows "\<exists>s'. dispatch_all (FenceInserter_Handler X) ens s = Inr s'
           \<and> apply_calls X (concat (map (fence_calls X) ens)) (new_batch s) = Inr (new_batch s')"
  using assms(2,3)
proof (induction ens arbitrary: s)
  case Nil
  then show ?case by simp
next
  case (Cons en ens)
  have "\<exists>s1. dispatch (FenceInserter_Handler X) en s = Inr s1
           \<and> apply_calls X (fence_calls X en) (new_batch s) = Inr (new_batch s1)"
  proof (cases en)
    case (ValueEntry key val)
    with FenceInserter_Put_calls [OF assms(1) Cons.prems(1), of key val] show ?thesis
      by (simp add: FenceInserter_Handler_def)
  next
    case (DeletionEntry key)
    then show ?thesis by (simp add: FenceInserter_Handler_def FenceInserter_Delete_def)
  next
    case (FenceEntry key lvl)
    with Cons.prems(2) show ?thesis by simp
  qed
  then obtain s1 where s1: "dispatch (FenceInserter_Handler X) en s = Inr s1"
    "apply_calls X (fence_calls X en) (new_batch s) = Inr (new_batch s1)" by auto
  from apply_calls_length [OF Cons.prems(1) s1(2)] have l: "12 \<le> length (rep (new_batch s1))" .
  from Cons.prems(2) have "\<forall>en \<in> set ens. \<not> is_fence en" by simp
  from Cons.IH [OF l this] obtain s' where
    "dispatch_all (FenceInserter_Handler X) ens s1 = Inr s'"
    "apply_calls X (concat (map (fence_calls X) ens)) (new_batch s1) = Inr (new_batch s')"
    by auto
  with s1 show ?case by (simp add: apply_calls_append)
qed

lemma SetFences_holds:
  assumes "kNumLevels X \<le> 14" "12 \<le> length (rep nb)" "holds_entries X b ens"
    "\<forall>en \<in> set ens. \<not> is_fence en"
  shows "\<exists>out. SetFences X b nb = Inr (OK, out)
           \<and> apply_calls X (concat (map (fence_calls X) ens)) nb = Inr out"
proof -
  from assms(3) have "12 \<le> length (rep b)" by (simp add: holds_entries_iff)
  then obtain q where q: "Sequence b = Inr q" by (simp add: Sequence_def)
  let ?s = "\<lparr>new_batch = nb, f_sequence = q, num_guards = (\<lambda>i. 0), bit_mask = 0\<rparr>"
  have "12 \<le> length (rep (new_batch ?s))" using assms(2) by simp
  from FenceInserter_dispatch_all [OF assms(1) this assms(4)]
  obtain s' where "dispatch_all (FenceInserter_Handler X) ens ?s = Inr s'"
    "apply_calls X (concat (map (fence_calls X) ens)) nb = Inr (new_batch s')"
    by auto
  then show ?thesis
    by (simp add: SetFences_def q Iterate_holds [OF assms(3)])
qed

lemma length_giant_key: "length giant_key = 2 ^ 32"
  by (simp add: giant_key_def)

lemma Varint32_0: "Varint32 0 = [0]"
  by (simp add: Varint32_def varint_enc.simps byte_of_def)

lemma LengthPrefixed_giant_key: "LengthPrefixed giant_key = 0 # giant_key"
proof -
  have "(word_of_nat (length giant_key) :: 32 word) = 0"
    by (simp add: length_giant_key)
  then show ?thesis by (simp add: LengthPrefixed_def Varint32_0)
qed

lemma GetLengthPrefixedSlice_0: "GetLengthPrefixedSlice (0 # xs) = Some ([], xs)"
  using GetVarint32_Varint32 [of 0 xs] by (simp add: GetLengthPrefixedSlice_def Varint32_0)

lemma tags_distinct_example: "tags_distinct X_example"
  by (simp add: tags_distinct_def X_example_def)

lemma parse_giant:
  "parse_entries X_example (record_bytes X_example (Call_Put giant_key v) @ rest)
   = (Some (Corruption ''unknown WriteBatch tag'' []), [ValueEntry [] []])"
proof -
  have r: "record_bytes X_example (Call_Put giant_key v) @ rest
           = 1 # 0 # 0 # 3 # (replicate 4294967294 0 @ LengthPrefixed v @ rest)"
    by (simp add: PutLengthPrefixedSlice_def LengthPrefixed_giant_key X_example_def)
       (simp add: giant_key_def)
  have 1: "read_record X_example 1 (0 # 0 # 3 # (replicate 4294967294 0 @ LengthPrefixed v @ rest))
           = Inr (ValueEntry [] [], 3 # (replicate 4294967294 0 @ LengthPrefixed v @ rest))"
    by (simp add: read_record_def X_example_def GetLengthPrefixedSlice_0)
  have 2: "read_record X_example 3 (replicate 4294967294 0 @ LengthPrefixed v @ rest)
           = Inl (Corruption ''unknown WriteBatch tag'' [])"
    by (simp add: read_record_def X_example_def)
  show ?thesis unfolding r by (simp add: 1 2)
qed

lemma apply_calls_Clear: "apply_calls X cs Clear = Inr (batch_of_calls X cs)"
proof -
  have z: "DecodeFixed32 (replicate 4 0) = 0"
    by (simp add: DecodeFixed32_def numeral_eq_Suc)
  show ?thesis
    using apply_calls_rep [of Clear X cs] by (simp add: Clear_def kHeader_def z batch_of_calls_def)
qed

lemma replay_calls_parse:
  "replay_calls X cs h s =
     (case parse_entries X (concat (map (record_bytes X) cs)) of
        (st, ens) \<Rightarrow>
          (case dispatch_all h ens s of
             Inl e \<Rightarrow> Inl e
           | Inr s' \<Rightarrow>
               (case st of
                  Some c \<Rightarrow> Inr (c, s')
                | None \<Rightarrow>
                    if int (length ens) \<noteq> sint (word_of_nat (length cs) :: 32 word)
                    then Inr (Corruption ''WriteBatch has wrong count'' [], s')
                    else Inr (OK, s'))))"
proof -
  have z: "DecodeFixed32 (replicate 4 0) = 0"
    by (simp add: DecodeFixed32_def numeral_eq_Suc)
  have b: "apply_calls X cs Clear
           = Inr \<lparr>rep = replicate 8 0 @ EncodeFixed32 (word_of_nat (length cs))
                         @ concat (map (record_bytes X) cs)\<rparr>"
    using apply_calls_rep [of Clear X cs] by (simp add: Clear_def kHeader_def z)
  show ?thesis
    using Count_rep [of "replicate 8 0" "word_of_nat (length cs)" "concat (map (record_bytes X) cs)"]
    by (simp add: replay_calls_def b Iterate_def kHeader_def Iterate_loop_parse
             split: prod.splits sum.splits option.splits)
qed

text \<open>
  Claim C3, with the bounds the 32-bit fields force: for every sequence of fewer than
  \<open>2\<^sup>3\<^sup>1\<close> \<open>Put\<close>/\<open>Delete\<close>/\<open>PutFence\<close> calls on an empty batch whose keys and values
  are shorter than \<open>2\<^sup>3\<^sup>2\<close> bytes, the header count is the number of calls, and
  \<open>Iterate\<close> with any handler makes exactly one handler call per record, in storage
  order (\<open>PutFence\<close>'s level as the \<open>uint32_t\<close> it was written as), and returns OK; a
  handler that stops the program stops the replay.
\<close>

theorem batch_count_and_replay:
  assumes "tags_distinct X" "\<forall>c \<in> set cs. call_fits c" "length cs < 2 ^ 31"
  shows "count_calls X cs = Inr (int (length cs))
         \<and> replay_calls X cs (h :: 's Handler) s
             = bindF (dispatch_all h (map entry_of_call cs) s) (\<lambda>s'. Inr (OK, s'))"
proof -
  from Iterate_calls [OF assms, where 's = 's] obtain b where
    b: "apply_calls X cs Clear = Inr b" "Count b = Inr (int (length cs))"
    and i: "\<And>(h :: 's Handler) s. Iterate X h b s =
              bindF (dispatch_all h (map entry_of_call cs) s) (\<lambda>s'. Inr (OK, s'))"
    by blast
  show ?thesis using b i [of h s] by (simp add: count_calls_def replay_calls_def)
qed

theorem batch_count_and_replay_witness:
  "count_calls X_example [Call_Put [1] [2], Call_Delete [3], Call_PutFence [4] 5] = Inr 3
   \<and> replay_calls X_example [Call_Put [1] [2], Call_Delete [3], Call_PutFence [4] 5] Recorder []
       = Inr (OK, [ValueEntry [1] [2], DeletionEntry [3], FenceEntry [4] 5])"
  using batch_count_and_replay
          [of X_example "[Call_Put [1] [2], Call_Delete [3], Call_PutFence [4] 5]" Recorder "[]"]
  by (simp add: tags_distinct_example fits32_def Recorder_def)

theorem batch_replay_giant_key_counterexample:
  "replay_calls X_example [Call_Put giant_key []] Recorder []
     = Inr (Corruption ''unknown WriteBatch tag'' [], [ValueEntry [] []])
   \<and> count_calls X_example (replicate 2147483648 (Call_Delete [])) = Inr (- 2147483648)"
proof -
  have "replay_calls X_example [Call_Put giant_key []] Recorder []
          = Inr (Corruption ''unknown WriteBatch tag'' [], [ValueEntry [] []])"
    using parse_giant [of "[]" "[]"] by (simp add: replay_calls_parse)
  moreover have "count_calls X_example (replicate 2147483648 (Call_Delete [])) = Inr (- 2147483648)"
    by (simp add: count_calls_def apply_calls_Clear batch_of_calls_def Count_rep)
  ultimately show ?thesis by simp
qed

lemma Iterate_rep:
  assumes "length h8 = 8"
  shows "Iterate X h \<lparr>rep = h8 @ EncodeFixed32 w @ body\<rparr> s =
     (case parse_entries X body of
        (st, ens) \<Rightarrow>
          (case dispatch_all h ens s of
             Inl e \<Rightarrow> Inl e
           | Inr s' \<Rightarrow>
               (case st of
                  Some c \<Rightarrow> Inr (c, s')
                | None \<Rightarrow>
                    if int (length ens) \<noteq> sint w
                    then Inr (Corruption ''WriteBatch has wrong count'' [], s')
                    else Inr (OK, s'))))"
  using assms Count_rep [OF assms, of w body]
  by (simp add: Iterate_def kHeader_def Iterate_loop_parse
           split: prod.splits sum.splits option.splits)

lemma parse_calls:
  assumes "tags_distinct X" "\<forall>c \<in> set cs. call_fits c"
  shows "parse_entries X (concat (map (record_bytes X) cs)) = (None, map entry_of_call cs)"
proof -
  obtain st ens where p: "parse_entries X (concat (map (record_bytes X) cs)) = (st, ens)"
    by (cases "parse_entries X (concat (map (record_bytes X) cs))")
  have "Iterate_loop X Recorder (concat (map (record_bytes X) cs) @ []) 0 []
          = Inr (None, int (length cs), map entry_of_call cs)"
    by (simp only: Iterate_loop_calls [OF assms]) simp
  then show ?thesis using p by (simp add: Iterate_loop_parse)
qed

lemma holds_calls:
  assumes "tags_distinct X" "\<forall>c \<in> set cs. call_fits c" "length cs < 2 ^ 31"
  shows "holds_entries X (batch_of_calls X cs) (map entry_of_call cs)"
proof -
  have "sint (word_of_nat (length cs) :: 32 word) = int (length cs)"
    using assms(3) sint_word_of_int_small [of "int (length cs)"] by simp
  then show ?thesis
    by (simp add: holds_entries_def batch_of_calls_def Iterate_rep parse_calls [OF assms(1,2)])
qed

lemma Append_rep:
  assumes "12 \<le> length (rep a)" "12 \<le> length (rep b)"
  shows "Append a b =
           Inr \<lparr>rep = take 8 (rep a)
                   @ EncodeFixed32 (DecodeFixed32 (drop 8 (rep a)) + DecodeFixed32 (drop 8 (rep b)))
                   @ drop 12 (rep a) @ drop 12 (rep b)\<rparr>"
  using assms by (simp add: Append_def Count_def SetCount_def kHeader_def)

lemma sint_add_small:
  assumes "- (2 ^ 31) \<le> sint a + sint b" "sint a + sint b < 2 ^ 31"
  shows "sint (a + b :: 32 word) = sint a + sint b"
proof -
  have "a + b = word_of_int (sint a + sint b)" by simp
  then show ?thesis using sint_word_of_int_small [OF assms] by simp
qed

text \<open>
  Claim C6, with the bound the \<open>int\<close> count forces: for two batches that replay
  successfully with the entries \<open>ea\<close> and \<open>eb\<close>, fewer than \<open>2\<^sup>3\<^sup>1\<close> together,
  \<open>Append\<close> succeeds, the result replays successfully with \<open>ea\<close> followed by \<open>eb\<close>, its
  header count is the sum of the two prior counts, and its eight sequence bytes are those
  of the receiver.
\<close>

theorem Append_entries:
  assumes "holds_entries X a ea" "holds_entries X b eb" "length ea + length eb < 2 ^ 31"
  shows "\<exists>a'. Append a b = Inr a'
           \<and> holds_entries X a' (ea @ eb)
           \<and> Count a = Inr (int (length ea)) \<and> Count b = Inr (int (length eb))
           \<and> Count a' = Inr (int (length ea) + int (length eb))
           \<and> Sequence a' = Sequence a \<and> take 8 (rep a') = take 8 (rep a)"
proof -
  from assms(1) have la: "12 \<le> length (rep a)" and pa: "parse_entries X (drop 12 (rep a)) = (None, ea)"
    and ca: "Count a = Inr (int (length ea))" by (simp_all add: holds_entries_iff)
  from assms(2) have lb: "12 \<le> length (rep b)" and pb: "parse_entries X (drop 12 (rep b)) = (None, eb)"
    and cb: "Count b = Inr (int (length eb))" by (simp_all add: holds_entries_iff)
  let ?wa = "DecodeFixed32 (drop 8 (rep a))" and ?wb = "DecodeFixed32 (drop 8 (rep b))"
  let ?a' = "\<lparr>rep = take 8 (rep a) @ EncodeFixed32 (?wa + ?wb) @ drop 12 (rep a) @ drop 12 (rep b)\<rparr>"
  from ca la have sa: "sint ?wa = int (length ea)" by (simp add: Count_def)
  from cb lb have sb: "sint ?wb = int (length eb)" by (simp add: Count_def)
  have s: "sint (?wa + ?wb) = int (length ea) + int (length eb)"
    using sint_add_small [of ?wa ?wb] assms(3) sa sb by simp
  have l8: "length (take 8 (rep a)) = 8" using la by simp
  have c: "Count ?a' = Inr (int (length ea) + int (length eb))"
    using Count_rep [OF l8, of "?wa + ?wb"] s by simp
  have p: "parse_entries X (drop 12 (rep a) @ drop 12 (rep b)) = (None, ea @ eb)"
    using parse_entries_append [OF pa, of "drop 12 (rep b)"] pb by simp
  have h: "holds_entries X ?a' (ea @ eb)"
    using s by (simp add: holds_entries_def Iterate_rep [OF l8] p)
  have q: "Sequence ?a' = Sequence a"
    using la by (simp add: Sequence_def DecodeFixed64_def min_def)
  have t: "take 8 (rep ?a') = take 8 (rep a)" using la by (simp add: min_def)
  show ?thesis
    using Append_rep [OF la lb] h ca cb c q t by simp
qed

lemma record_bytes_Delete_Nil: "record_bytes X_example (Call_Delete []) = [0, 0]"
  by (simp add: PutLengthPrefixedSlice_def LengthPrefixed_def Varint32_0 X_example_def)

lemma many_deletes_eq:
  "many_deletes = batch_of_calls X_example (replicate 1073741824 (Call_Delete []))"
  by (simp add: many_deletes_def batch_of_calls_def record_bytes_Delete_Nil
           del: record_bytes.simps)

lemma holds_many_deletes:
  "holds_entries X_example many_deletes (replicate 1073741824 (DeletionEntry []))"
  using holds_calls [OF tags_distinct_example, of "replicate 1073741824 (Call_Delete [])"]
  by (simp add: many_deletes_eq fits32_def)

theorem Append_entries_witness:
  "holds_entries X_example (batch_of_calls X_example [Call_Put [1] [2]]) [ValueEntry [1] [2]]
   \<and> holds_entries X_example (batch_of_calls X_example [Call_Delete [3]]) [DeletionEntry [3]]
   \<and> (\<exists>a'. Append (batch_of_calls X_example [Call_Put [1] [2]])
                   (batch_of_calls X_example [Call_Delete [3]]) = Inr a'
          \<and> holds_entries X_example a' [ValueEntry [1] [2], DeletionEntry [3]]
          \<and> Count a' = Inr 2)"
proof -
  have a: "holds_entries X_example (batch_of_calls X_example [Call_Put [1] [2]]) [ValueEntry [1] [2]]"
    using holds_calls [OF tags_distinct_example, of "[Call_Put [1] [2]]"] by (simp add: fits32_def)
  have b: "holds_entries X_example (batch_of_calls X_example [Call_Delete [3]]) [DeletionEntry [3]]"
    using holds_calls [OF tags_distinct_example, of "[Call_Delete [3]]"] by (simp add: fits32_def)
  from Append_entries [OF a b] a b show ?thesis by auto
qed

theorem Append_count_counterexample:
  "holds_entries X_example many_deletes (replicate 1073741824 (DeletionEntry []))
   \<and> Count many_deletes = Inr 1073741824
   \<and> bindF (Append many_deletes many_deletes) Count = Inr (- 2147483648)"
proof -
  have l: "12 \<le> length (rep many_deletes)" by (simp add: many_deletes_def)
  have d: "DecodeFixed32 (drop 8 (rep many_deletes)) = 1073741824"
    by (simp add: many_deletes_def)
  have c: "Count many_deletes = Inr 1073741824"
    using l d by (simp add: Count_def)
  have "bindF (Append many_deletes many_deletes) Count = Inr (- 2147483648)"
    using l by (simp add: Append_rep [OF l l] d Count_def)
  with holds_many_deletes c show ?thesis by simp
qed

lemma SetSequence_batch_of_calls:
  "SetSequence (batch_of_calls X cs) q
     = Inr \<lparr>rep = EncodeFixed64 q @ EncodeFixed32 (word_of_nat (length cs))
                   @ concat (map (record_bytes X) cs)\<rparr>"
  by (simp add: SetSequence_def batch_of_calls_def)

lemma insert_calls_parse:
  "insert_calls X q cs m =
     (case parse_entries X (concat (map (record_bytes X) cs)) of
        (st, ens) \<Rightarrow>
          (case dispatch_all (MemTableInserter_Handler X) ens \<lparr>sequence = q, mem = m\<rparr> of
             Inl e \<Rightarrow> Inl e
           | Inr s' \<Rightarrow>
               (case st of
                  Some c \<Rightarrow> Inr (c, s')
                | None \<Rightarrow>
                    if int (length ens) \<noteq> sint (word_of_nat (length cs) :: 32 word)
                    then Inr (Corruption ''WriteBatch has wrong count'' [], s')
                    else Inr (OK, s'))))"
proof -
  have "length (EncodeFixed64 q) = 8" by simp
  from Iterate_rep [OF this] show ?thesis
    by (simp add: insert_calls_def apply_calls_Clear SetSequence_batch_of_calls InsertInto_def
                  Sequence_def)
qed

lemma X_example_simps:
  "kNumLevels X_example = 7" "kTypeDeletion X_example = 0" "kTypeValue X_example = 1"
  "kTypeFence X_example = 2" "InternalKey_valid X_example s = (s \<noteq> [])"
  "NDEBUG X_example = False"
  by (simp_all add: X_example_def)

lemma X_example_hash: "MurmurHash3_x86_32 X_example key seed = DecodeFixed32 key XOR seed"
  by (simp add: X_example_def)

lemma Varint32_small: "n < 128 \<Longrightarrow> Varint32 (word_of_nat n) = [byte_of n]"
  by (simp add: Varint32_def varint_enc.simps unat_of_nat)

lemma LengthPrefixed_small: "length s < 128 \<Longrightarrow> LengthPrefixed s = byte_of (length s) # s"
  by (simp add: LengthPrefixed_def Varint32_small)

text \<open>
  Claim C8, for keys and values shorter than \<open>2\<^sup>3\<^sup>2\<close> bytes: the batch built by
  \<open>Put(k1,v1)\<close>, \<open>Delete(k2)\<close>, \<open>Put(k3,v3)\<close> has header count 3; with header sequence 5,
  \<open>InsertInto\<close> returns OK having added \<open>(5, kTypeValue, k1, v1)\<close>, \<open>(6, kTypeDeletion,
  k2, "")\<close> and \<open>(7, kTypeValue, k3, v3)\<close> to the table, in this order; and
  \<open>ApproximateSize\<close> is 12 plus the lengths of the three encoded records.
\<close>

theorem three_record_scenario:
  assumes "tags_distinct X" "fits32 k1" "fits32 v1" "fits32 k2" "fits32 k3" "fits32 v3"
  shows "count_calls X [Call_Put k1 v1, Call_Delete k2, Call_Put k3 v3] = Inr 3
         \<and> insert_calls X 5 [Call_Put k1 v1, Call_Delete k2, Call_Put k3 v3] m
             = Inr (OK, \<lparr>sequence = 8,
                         mem = m @ [(5, kTypeValue X, k1, v1), (6, kTypeDeletion X, k2, []),
                                    (7, kTypeValue X, k3, v3)]\<rparr>)
         \<and> size_calls X [Call_Put k1 v1, Call_Delete k2, Call_Put k3 v3]
             = Inr (12 + (length (record_bytes X (Call_Put k1 v1))
                          + length (record_bytes X (Call_Delete k2))
                          + length (record_bytes X (Call_Put k3 v3))))"
proof -
  let ?cs = "[Call_Put k1 v1, Call_Delete k2, Call_Put k3 v3]"
  have f: "\<forall>c \<in> set ?cs. call_fits c" using assms by simp
  have p: "parse_entries X (concat (map (record_bytes X) ?cs))
           = (None, [ValueEntry k1 v1, DeletionEntry k2, ValueEntry k3 v3])"
    using parse_calls [OF assms(1) f] by simp
  have c: "count_calls X ?cs = Inr 3"
    by (simp add: count_calls_def apply_calls_Clear batch_of_calls_def Count_rep
             del: record_bytes.simps)
  have i: "insert_calls X 5 ?cs m
             = Inr (OK, \<lparr>sequence = 8,
                         mem = m @ [(5, kTypeValue X, k1, v1), (6, kTypeDeletion X, k2, []),
                                    (7, kTypeValue X, k3, v3)]\<rparr>)"
    unfolding insert_calls_parse p
    by (simp add: MemTableInserter_Handler_def MemTableInserter_Put_def
                  MemTableInserter_Delete_def MemTableInserter_HandleFence_def MemTable_Add_def)
  have s: "size_calls X ?cs
             = Inr (12 + (length (record_bytes X (Call_Put k1 v1))
                          + length (record_bytes X (Call_Delete k2))
                          + length (record_bytes X (Call_Put k3 v3))))"
    by (simp add: size_calls_def apply_calls_Clear batch_of_calls_def ApproximateSize_def
             del: record_bytes.simps)
  from c i s show ?thesis by simp
qed

theorem three_record_scenario_witness:
  "count_calls X_example [Call_Put [107, 49] [118, 49], Call_Delete [107, 50], Call_Put [107, 51] [118, 51]]
     = Inr 3
   \<and> insert_calls X_example 5
        [Call_Put [107, 49] [118, 49], Call_Delete [107, 50], Call_Put [107, 51] [118, 51]] []
       = Inr (OK, \<lparr>sequence = 8,
                   mem = [(5, 1, [107, 49], [118, 49]), (6, 0, [107, 50], []),
                          (7, 1, [107, 51], [118, 51])]\<rparr>)
   \<and> size_calls X_example
        [Call_Put [107, 49] [118, 49], Call_Delete [107, 50], Call_Put [107, 51] [118, 51]]
       = Inr 30"
  using three_record_scenario [OF tags_distinct_example,
          of "[107, 49]" "[118, 49]" "[107, 50]" "[107, 51]" "[118, 51]" "[]"]
  by (simp add: fits32_def PutLengthPrefixedSlice_def LengthPrefixed_small X_example_simps)

theorem three_record_giant_key_counterexample:
  "insert_calls X_example 5 [Call_Put giant_key [118, 49], Call_Delete [107, 50], Call_Put [107, 51] [118, 51]] []
     = Inr (Corruption ''unknown WriteBatch tag'' [],
            \<lparr>sequence = 6, mem = [(5, 1, [], [])]\<rparr>)"
proof -
  have "parse_entries X_example
          (concat (map (record_bytes X_example)
             [Call_Put giant_key [118, 49], Call_Delete [107, 50], Call_Put [107, 51] [118, 51]]))
        = (Some (Corruption ''unknown WriteBatch tag'' []), [ValueEntry [] []])"
    using parse_giant [of "[118, 49]"
            "record_bytes X_example (Call_Delete [107, 50])
             @ record_bytes X_example (Call_Put [107, 51] [118, 51])"]
    by (simp del: record_bytes.simps)
  then show ?thesis
    unfolding insert_calls_parse
    by (simp add: MemTableInserter_Handler_def MemTableInserter_Put_def MemTable_Add_def
                  X_example_simps)
qed

lemma holds_entries_fits:
  assumes "holds_entries X b ens" "ValueEntry key val \<in> set ens"
  shows "fits32 key"
  using assms parse_entries_fits [of X "drop 12 (rep b)" None ens key val]
  by (simp add: holds_entries_iff)

lemma entry_of_fence_calls:
  "map entry_of_call (map (\<lambda>l. Call_PutFence key (int l)) ls)
     = map (\<lambda>l. FenceEntry key (word_of_nat l)) ls"
  by simp

lemma length_fence_levels: "length (fence_levels X key) \<le> kNumLevels X"
  by (simp add: fence_levels_def split: option.splits)

text \<open>
  Claim C4: for a source batch that holds one \<open>Put\<close> of \<open>key\<close>, \<open>SetFences\<close> into an
  empty batch returns OK and leaves a batch that holds exactly one Fence record for
  \<open>key\<close> at each of the levels \<open>L, L+1, \<dots>, kNumLevels - 1\<close>, in this order, where \<open>L\<close>
  is the first level whose threshold (27 at level 0, two less per level) the hash of the
  key meets; it holds no record when no level's threshold is met.  The level count is at
  most 14, so that every threshold is positive.
\<close>

theorem guard_levels_single_put:
  assumes "tags_distinct X" "kNumLevels X \<le> 14" "holds_entries X b [ValueEntry key val]"
  shows "\<exists>out. SetFences X b Clear = Inr (OK, out)
           \<and> holds_entries X out
                (map (\<lambda>l. FenceEntry key (word_of_nat l))
                   (case shallowest_level (kNumLevels X) (MurmurHash3_x86_32 X key murmur_seed) of
                      None \<Rightarrow> []
                    | Some l \<Rightarrow> [l ..< kNumLevels X]))"
proof -
  let ?ls = "case shallowest_level (kNumLevels X) (MurmurHash3_x86_32 X key murmur_seed) of
               None \<Rightarrow> [] | Some l \<Rightarrow> [l ..< kNumLevels X]"
  let ?cs = "map (\<lambda>l. Call_PutFence key (int l)) ?ls"
  have ls: "?ls = fence_levels X key" by (simp add: fence_levels_def)
  have k: "fits32 key" using holds_entries_fits [OF assms(3)] by simp
  have "12 \<le> length (rep Clear)" by (simp add: Clear_def kHeader_def)
  from SetFences_holds [OF assms(2) this assms(3)]
  have "SetFences X b Clear = Inr (OK, batch_of_calls X ?cs)"
    by (simp add: apply_calls_Clear ls)
  moreover have "\<forall>c \<in> set ?cs. call_fits c" using k by auto
  moreover have "length ?cs < 2 ^ 31"
    using length_fence_levels [of X key] assms(2) by (simp add: ls)
  ultimately show ?thesis
    using holds_calls [OF assms(1), of ?cs] by (simp add: ls comp_def)
qed

lemma hash_example_key: "MurmurHash3_x86_32 X_example example_key murmur_seed = 33554431"
  by (simp add: X_example_hash example_key_def murmur_seed_def DecodeFixed32_def)

lemma shallowest_example: "shallowest_level 7 (33554431 :: 32 word) = Some 1"
  by (simp add: shallowest_level_def low_bits_set_def upt_rec mask_eq_exp_minus_1 take_bit_eq_mod)

theorem guard_levels_single_put_witness:
  "holds_entries X_example (batch_of_calls X_example [Call_Put example_key [9]])
     [ValueEntry example_key [9]]
   \<and> (\<exists>out. SetFences X_example (batch_of_calls X_example [Call_Put example_key [9]]) Clear
             = Inr (OK, out)
          \<and> holds_entries X_example out
               [FenceEntry example_key 1, FenceEntry example_key 2, FenceEntry example_key 3,
                FenceEntry example_key 4, FenceEntry example_key 5, FenceEntry example_key 6])"
proof -
  have h: "holds_entries X_example (batch_of_calls X_example [Call_Put example_key [9]])
             [ValueEntry example_key [9]]"
    using holds_calls [OF tags_distinct_example, of "[Call_Put example_key [9]]"]
    by (simp add: fits32_def example_key_def)
  have k: "kNumLevels X_example \<le> 14" by (simp add: X_example_simps)
  from guard_levels_single_put [OF tags_distinct_example k h] h show ?thesis
    by (simp add: hash_example_key shallowest_example X_example_simps upt_rec)
qed

lemma fence_calls_levels:
  assumes "ValueEntry key val \<in> set ens"
  shows "{l. Call_PutFence key l \<in> set (concat (map (fence_calls X) ens))}
           = int ` set (fence_levels X key)"
proof -
  have "Call_PutFence key l \<in> set (fence_calls X en)
          \<longleftrightarrow> (\<exists>v. en = ValueEntry key v) \<and> l \<in> int ` set (fence_levels X key)" for l en
    by (cases en) auto
  with assms show ?thesis by auto
qed

text \<open>
  Claim C5: take two source batches that replay successfully, hold no Fence record and both
  hold a \<open>Put\<close> of \<open>key\<close>.  \<open>SetFences\<close> returns OK on both, its output is the
  destination after the \<open>PutFence\<close> calls \<open>fence_calls\<close> lists for the entries of the
  source in order, and in both runs the levels \<open>key\<close> is put as a fence at are those of
  \<open>fence_levels X key\<close>: a function of the key's hash alone, whatever else the batch
  holds and wherever the key stands in it.
\<close>

theorem guard_levels_deterministic:
  assumes "kNumLevels X \<le> 14"
    "12 \<le> length (rep nb1)" "holds_entries X b1 e1" "\<forall>en \<in> set e1. \<not> is_fence en"
    "ValueEntry key v1 \<in> set e1"
    "12 \<le> length (rep nb2)" "holds_entries X b2 e2" "\<forall>en \<in> set e2. \<not> is_fence en"
    "ValueEntry key v2 \<in> set e2"
  shows "\<exists>out1 out2.
           SetFences X b1 nb1 = Inr (OK, out1)
           \<and> apply_calls X (concat (map (fence_calls X) e1)) nb1 = Inr out1
           \<and> SetFences X b2 nb2 = Inr (OK, out2)
           \<and> apply_calls X (concat (map (fence_calls X) e2)) nb2 = Inr out2
           \<and> {l. Call_PutFence key l \<in> set (concat (map (fence_calls X) e1))}
               = int ` set (fence_levels X key)
           \<and> {l. Call_PutFence key l \<in> set (concat (map (fence_calls X) e2))}
               = int ` set (fence_levels X key)"
  using SetFences_holds [OF assms(1,2,3,4)] SetFences_holds [OF assms(1,6,7,8)]
        fence_calls_levels [OF assms(5), of X] fence_calls_levels [OF assms(9), of X]
  by blast

lemma fence_levels_example: "fence_levels X_example example_key = [1, 2, 3, 4, 5, 6]"
  by (simp add: fence_levels_def hash_example_key shallowest_example X_example_simps upt_rec)

lemma fence_levels_zero: "fence_levels X_example [0, 0, 0, 0] = []"
  by (simp add: fence_levels_def X_example_simps X_example_hash murmur_seed_def DecodeFixed32_def
                shallowest_level_def low_bits_set_def upt_rec mask_eq_exp_minus_1 take_bit_eq_mod)

theorem guard_levels_deterministic_witness:
  "(\<exists>out1 out2.
      SetFences X_example (batch_of_calls X_example [Call_Put example_key [9]]) Clear
        = Inr (OK, out1)
      \<and> SetFences X_example
          (batch_of_calls X_example
             [Call_Delete [7], Call_Put [0, 0, 0, 0] [], Call_Put example_key [8]]) Clear
        = Inr (OK, out2)
      \<and> holds_entries X_example out1 (map (FenceEntry example_key) [1, 2, 3, 4, 5, 6])
      \<and> holds_entries X_example out2 (map (FenceEntry example_key) [1, 2, 3, 4, 5, 6]))"
proof -
  let ?c1 = "[Call_Put example_key [9]]"
  let ?c2 = "[Call_Delete [7], Call_Put [0, 0, 0, 0] [], Call_Put example_key [8]]"
  let ?fs = "map (\<lambda>l. Call_PutFence example_key (int l)) [1, 2, 3, 4, 5, 6]"
  have k: "kNumLevels X_example \<le> 14" by (simp add: X_example_simps)
  have c: "12 \<le> length (rep Clear)" by (simp add: Clear_def kHeader_def)
  have h1: "holds_entries X_example (batch_of_calls X_example ?c1) (map entry_of_call ?c1)"
    using holds_calls [OF tags_distinct_example, of ?c1]
    by (simp add: fits32_def example_key_def)
  have h2: "holds_entries X_example (batch_of_calls X_example ?c2) (map entry_of_call ?c2)"
    using holds_calls [OF tags_distinct_example, of ?c2]
    by (simp add: fits32_def example_key_def)
  have f1: "concat (map (fence_calls X_example) (map entry_of_call ?c1)) = ?fs"
    by (simp add: fence_levels_example)
  have f2: "concat (map (fence_calls X_example) (map entry_of_call ?c2)) = ?fs"
    by (simp add: fence_levels_example fence_levels_zero)
  have o: "holds_entries X_example (batch_of_calls X_example ?fs)
             (map (FenceEntry example_key) [1, 2, 3, 4, 5, 6])"
    using holds_calls [OF tags_distinct_example, of ?fs]
    by (simp add: fits32_def example_key_def)
  from guard_levels_deterministic [OF k c h1 _ _ c h2, of example_key "[9]" "[8]"]
  obtain out1 out2 where
    "SetFences X_example (batch_of_calls X_example ?c1) Clear = Inr (OK, out1)"
    "apply_calls X_example (concat (map (fence_calls X_example) (map entry_of_call ?c1))) Clear
       = Inr out1"
    "SetFences X_example (batch_of_calls X_example ?c2) Clear = Inr (OK, out2)"
    "apply_calls X_example (concat (map (fence_calls X_example) (map entry_of_call ?c2))) Clear
       = Inr out2"
    by auto
  then show ?thesis
    using o unfolding f1 f2 apply_calls_Clear by auto
qed
section \<open>Properties of the version edit\<close>

lemma tag_defs:
  "kComparator = 1" "kLogNumber = 2" "kNextFileNumber = 3" "kLastSequence = 4"
  "kCompactPointer = 5" "kDeletedFile = 6" "kNewFile = 7" "kPrevLogNumber = 9"
  "kNewFence = 10" "kDeletedFence = 11" "kFileInsideFence = 12" "kNewSentinelFile = 13"
  "kDeletedSentinelFile = 14" "kNewCompleteFence = 15" "kNewSentinelFileNo = 16"
  by (simp_all add: kComparator_def kLogNumber_def kNextFileNumber_def kLastSequence_def
        kCompactPointer_def kDeletedFile_def kNewFile_def kPrevLogNumber_def kNewFence_def
        kDeletedFence_def kFileInsideFence_def kNewSentinelFile_def kDeletedSentinelFile_def
        kNewCompleteFence_def kNewSentinelFileNo_def)

lemma level_word:
  assumes "levels_ok X" "in_levels X lvl"
  shows "unat (word_of_int lvl :: 32 word) = nat lvl" "uint (word_of_int lvl :: 32 word) = lvl"
    "nat lvl < kNumLevels X"
proof -
  from assms have b: "0 \<le> lvl" "lvl < 2 ^ 32" "nat lvl < kNumLevels X"
    by (auto simp: levels_ok_def in_levels_def)
  then show u: "uint (word_of_int lvl :: 32 word) = lvl"
    by (simp add: uint_word_of_int take_bit_int_eq_self)
  then show "unat (word_of_int lvl :: 32 word) = nat lvl"
    by (metis nat_uint_eq)
  show "nat lvl < kNumLevels X" by (rule b)
qed

lemma GetLevel_Varint32 [simp]:
  assumes "levels_ok X" "in_levels X lvl"
  shows "GetLevel X (Varint32 (word_of_int lvl) @ rest) = Some (lvl, rest)"
  using level_word [OF assms] by (simp add: GetLevel_def)

lemma GetInternalKey_LengthPrefixed [simp]:
  assumes "key_ok X k"
  shows "GetInternalKey X (LengthPrefixed k @ rest) = Some (k, rest)"
  using assms by (simp add: GetInternalKey_def key_ok_def InternalKey_DecodeFrom_def)

lemma GetLevel_truncated:
  "strict_prefix q (Varint32 v) \<Longrightarrow> GetLevel X q = None"
  by (simp add: GetLevel_def GetVarint32_truncated)

lemma GetInternalKey_truncated:
  assumes "key_ok X k" "strict_prefix q (LengthPrefixed k)"
  shows "GetInternalKey X q = None"
proof -
  from assms have "GetLengthPrefixedSlice q = None"
    by (intro GetLengthPrefixedSlice_truncated [of k]) (simp_all add: key_ok_def)
  then show ?thesis by (simp add: GetInternalKey_def)
qed

lemma plain_fence_eq:
  assumes "plain_fence g" "plain_fence f"
  shows "g\<lparr>level := level f, number_segments := 0, fence_key := fence_key f, files := []\<rparr> = f"
  using assms by (intro FenceMetaData.equality) (simp_all add: plain_fence_def)

lemma plain_file_eq:
  assumes "plain_file f"
  shows "FileMetaData_init\<lparr>number := number f, file_size := file_size f,
                            smallest := smallest f, largest := largest f\<rparr> = f"
  using assms by (intro FileMetaData.equality) (simp_all add: plain_file_def FileMetaData_init_def)

text \<open>Sets as sorted lists.\<close>

lemma set_insert_last:
  assumes "\<forall>y \<in> set ys. lt y x \<and> \<not> lt x y"
  shows "set_insert lt x ys = ys @ [x]"
  using assms by (induction ys) simp_all

lemma fold_set_insert_sorted:
  assumes "\<And>a b. lt a b \<Longrightarrow> \<not> lt b a" "sorted_wrt lt (ys @ xs)"
  shows "fold (set_insert lt) xs ys = ys @ xs"
  using assms(2)
proof (induction xs arbitrary: ys)
  case Nil
  then show ?case by simp
next
  case (Cons x xs)
  from Cons.prems have "\<forall>y \<in> set ys. lt y x" by (auto simp: sorted_wrt_append)
  with assms(1) have "set_insert lt x ys = ys @ [x]" by (intro set_insert_last) auto
  moreover from Cons.prems have "sorted_wrt lt ((ys @ [x]) @ xs)" by simp
  ultimately show ?case using Cons.IH [of "ys @ [x]"] by simp
qed

lemma set_set_insert: "set (set_insert lt x xs) \<subseteq> insert x (set xs)"
  by (induction xs) auto

lemma sorted_set_insert:
  assumes "\<And>a b c. lt a b \<Longrightarrow> lt b c \<Longrightarrow> lt a c" "sorted_wrt lt xs"
  shows "sorted_wrt lt (set_insert lt x xs)"
  using assms(2)
proof (induction xs)
  case Nil
  then show ?case by simp
next
  case (Cons y ys)
  show ?case
  proof (cases "lt x y")
    case True
    with Cons.prems assms(1) show ?thesis by auto
  next
    case False
    show ?thesis
    proof (cases "lt y x")
      case True
      from Cons have "sorted_wrt lt (set_insert lt x ys)" by simp
      moreover have "\<forall>z \<in> set (set_insert lt x ys). lt y z"
        using set_set_insert [of lt x ys] Cons.prems True by auto
      ultimately show ?thesis using False True by simp
    next
      case False
      with \<open>\<not> lt x y\<close> Cons.prems show ?thesis by simp
    qed
  qed
qed

lemma file_pair_less_asym: "file_pair_less a b \<Longrightarrow> \<not> file_pair_less b a"
  by (auto simp: file_pair_less_def)

lemma file_pair_less_trans: "file_pair_less a b \<Longrightarrow> file_pair_less b c \<Longrightarrow> file_pair_less a c"
  by (auto simp: file_pair_less_def)

lemma level_less_asym: "level_less a b \<Longrightarrow> \<not> level_less b a"
  by (simp add: level_less_def)

lemma level_less_trans: "level_less a b \<Longrightarrow> level_less b c \<Longrightarrow> level_less a c"
  by (simp add: level_less_def)

text \<open>
  The insertion into \<open>deleted_fences_\<close> returns when the set has no pair of the new
  pair's level, and calls through the null pointer when it has one.
\<close>

lemma deleted_fences_insert_level:
  assumes "fst p \<notin> fst ` set ps"
  shows "deleted_fences_insert p ps = Inr (set_insert level_less p ps)"
  using assms unfolding deleted_fences_insert_def
  by (induction ps) (auto simp: BySmallestPair_def level_less_def)

lemma deleted_fences_insert_same_level:
  assumes "sorted_wrt level_less ps" "fst p \<in> fst ` set ps"
  shows "deleted_fences_insert p ps = Inl NullDereference"
  using assms unfolding deleted_fences_insert_def
proof (induction ps)
  case Nil
  then show ?case by simp
next
  case (Cons q qs)
  show ?case
  proof (cases "fst p = fst q")
    case True
    then show ?thesis by (simp add: BySmallestPair_def)
  next
    case False
    with Cons.prems have m: "fst p \<in> fst ` set qs" by auto
    with Cons.prems(1) have "fst q < fst p" by (auto simp: level_less_def)
    with Cons.IH [OF _ m] Cons.prems(1) show ?thesis by (simp add: BySmallestPair_def)
  qed
qed

lemma deleted_fences_insert_returns:
  assumes "sorted_wrt level_less ps" "deleted_fences_insert p ps = Inr r"
  shows "fst p \<notin> fst ` set ps" "r = set_insert level_less p ps"
proof -
  show n: "fst p \<notin> fst ` set ps"
    using deleted_fences_insert_same_level [OF assms(1), of p] assms(2) by auto
  from deleted_fences_insert_level [OF n] assms(2) show "r = set_insert level_less p ps" by simp
qed

lemmas put_defs = PutVarint32_def PutVarint64_def PutLengthPrefixedSlice_def Encode_def

lemma DecodeFrom_loop_item:
  assumes "levels_ok X" "item_ok X it" "plain_fence (d_g d)"
    "set (item_deleted_level it) \<inter> fst ` set (deleted_fences (d_edit d)) = {}"
  shows "DecodeFrom_loop X d (item_bytes it @ rest) = DecodeFrom_loop X (decode_item X it d) rest"
proof (cases it)
  case (Item_DeletedFence lvl key)
  with assms(4) have "fst (lvl, key) \<notin> fst ` set (deleted_fences (d_edit d))" by simp
  from deleted_fences_insert_level [OF this] Item_DeletedFence assms(1,2) show ?thesis
    by (subst DecodeFrom_loop.simps)
       (simp add: DecodeFrom_switch_def decode_item_def tag_defs put_defs Let_def)
next
  case (Item_NewFile lvl f)
  with assms show ?thesis
    by (subst DecodeFrom_loop.simps)
       (simp add: DecodeFrom_switch_def decode_item_def tag_defs put_defs Let_def GetFile_def plain_file_eq)
next
  case (Item_NewFence f)
  with assms show ?thesis
    by (subst DecodeFrom_loop.simps)
       (simp add: DecodeFrom_switch_def decode_item_def tag_defs put_defs Let_def GetFenceHead_def
                  plain_fence_eq level_word)
next
  case (Item_NewCompleteFence f)
  with assms show ?thesis
    by (subst DecodeFrom_loop.simps)
       (simp add: DecodeFrom_switch_def decode_item_def tag_defs put_defs Let_def GetFenceHead_def
                  plain_fence_eq level_word)
qed (use assms(1,2,3) in \<open>(subst DecodeFrom_loop.simps,
       simp add: DecodeFrom_switch_def decode_item_def tag_defs put_defs Let_def)+\<close>)

lemma get_varint_Nil [simp]: "get_varint k s [] = None"
  by (cases k) simp_all

lemma DecodeFrom_loop_Nil [simp]: "DecodeFrom_loop X d [] = Inr (None, [], d)"
  by (subst DecodeFrom_loop.simps) (simp add: GetVarint32_def)

lemma plain_fence_item:
  "item_ok X it \<Longrightarrow> plain_fence g \<Longrightarrow> plain_fence (item_fence it g)"
  by (cases it) simp_all

lemma deleted_levels_Cons [simp]:
  "deleted_levels (it # its) = item_deleted_level it @ deleted_levels its"
  "deleted_levels [] = []"
  by (simp_all add: deleted_levels_def)

lemma deleted_levels_append [simp]:
  "deleted_levels (xs @ ys) = deleted_levels xs @ deleted_levels ys"
  by (simp add: deleted_levels_def)

lemma decode_item_levels:
  "fst ` set (deleted_fences (d_edit (decode_item X it d)))
     \<subseteq> fst ` set (deleted_fences (d_edit d)) \<union> set (item_deleted_level it)"
proof (cases it)
  case (Item_DeletedFence lvl key)
  with set_set_insert [of level_less "(lvl, key)" "deleted_fences (d_edit d)"] show ?thesis
    by (auto simp: decode_item_def)
qed (simp_all add: decode_item_def)

lemma DecodeFrom_loop_items:
  assumes "levels_ok X" "\<forall>it \<in> set its. item_ok X it" "plain_fence (d_g d)"
    "distinct (deleted_levels its)"
    "set (deleted_levels its) \<inter> fst ` set (deleted_fences (d_edit d)) = {}"
  shows "DecodeFrom_loop X d (concat (map item_bytes its) @ rest)
           = DecodeFrom_loop X (fold (decode_item X) its d) rest"
  using assms(2-)
proof (induction its arbitrary: d)
  case Nil
  then show ?case by simp
next
  case (Cons it its)
  then have ok: "item_ok X it" and oks: "\<forall>it \<in> set its. item_ok X it" by auto
  have pf: "plain_fence (d_g (decode_item X it d))"
    using plain_fence_item [OF ok Cons.prems(2)] by (simp add: decode_item_def)
  from Cons.prems(3,4) have di: "distinct (deleted_levels its)"
    and h: "set (item_deleted_level it) \<inter> fst ` set (deleted_fences (d_edit d)) = {}"
    and t: "set (deleted_levels its) \<inter> fst ` set (deleted_fences (d_edit d)) = {}"
    and x: "set (item_deleted_level it) \<inter> set (deleted_levels its) = {}"
    by auto
  from t x decode_item_levels [of X it d]
  have "set (deleted_levels its) \<inter> fst ` set (deleted_fences (d_edit (decode_item X it d))) = {}"
    by blast
  from Cons.IH [OF oks pf di this] DecodeFrom_loop_item [OF assms(1) ok Cons.prems(2) h]
  show ?case by simp
qed

lemma fold_put: "fold (\<lambda>p dst. dst @ f p) xs dst = dst @ concat (map f xs)"
  by (induction xs arbitrary: dst) simp_all

lemma fold_put2:
  "fold (\<lambda>k dst. fold (\<lambda>p dst. dst @ f p) (g k) dst) ks dst
     = dst @ concat (map (\<lambda>k. concat (map f (g k))) ks)"
  by (induction ks arbitrary: dst) (simp_all add: fold_put)

lemma concat_concat_map:
  "concat (concat (map (\<lambda>k. map f (g k)) ks)) = concat (map (\<lambda>k. concat (map f (g k))) ks)"
  by (induction ks) simp_all

lemma EncodeTo_items: "EncodeTo X e dst = dst @ concat (map item_bytes (items_of X e))"
  by (simp add: EncodeTo_def items_of_def put_defs fold_put fold_put2 Let_def comp_def
                map_concat concat_concat_map)


lemma d_edit_fold:
  "d_edit (fold (decode_item X) its d) = fold (store_item X) its (d_edit d)"
  by (induction its arbitrary: d) (simp_all add: decode_item_def)

lemma fold_store_compact:
  "fold (store_item X) (map (\<lambda>p. Item_CompactPointer (fst p) (snd p)) ps) e
     = e\<lparr>compact_pointers := compact_pointers e @ ps\<rparr>"
  by (induction ps arbitrary: e) simp_all

lemma fold_store_new_files:
  "fold (store_item X) (map (\<lambda>p. Item_NewFile (fst p) (snd p)) ps) e
     = e\<lparr>new_files := new_files e @ ps\<rparr>"
  by (induction ps arbitrary: e) simp_all

lemma fold_store_deleted_files:
  "fold (store_item X) (map (\<lambda>p. Item_DeletedFile (fst p) (snd p)) ps) e
     = e\<lparr>deleted_files := fold (set_insert file_pair_less) ps (deleted_files e)\<rparr>"
  by (induction ps arbitrary: e) simp_all

lemma fold_store_deleted_sentinel_files:
  "fold (store_item X) (map (\<lambda>p. Item_DeletedSentinelFile (fst p) (snd p)) ps) e
     = e\<lparr>deleted_sentinel_files := fold (set_insert file_pair_less) ps (deleted_sentinel_files e)\<rparr>"
  by (induction ps arbitrary: e) simp_all

lemma fold_store_deleted_fences:
  "fold (store_item X) (map (\<lambda>p. Item_DeletedFence (fst p) (snd p)) ps) e
     = e\<lparr>deleted_fences := fold (set_insert level_less) ps (deleted_fences e)\<rparr>"
  by (induction ps arbitrary: e) simp_all

lemma fold_store_fences_level:
  assumes "\<forall>f \<in> set fs. nat (level f) = k"
  shows "fold (store_item X) (map Item_NewFence fs) e
           = e\<lparr>new_fences := (new_fences e)(k := new_fences e k @ fs)\<rparr>"
  using assms by (induction fs arbitrary: e) simp_all

lemma fold_store_complete_fences_level:
  assumes "\<forall>f \<in> set fs. nat (level f) = k"
  shows "fold (store_item X) (map Item_NewCompleteFence fs) e
           = e\<lparr>new_complete_fences := (new_complete_fences e)(k := new_complete_fences e k @ fs)\<rparr>"
  using assms by (induction fs arbitrary: e) simp_all

lemma fold_store_fences:
  assumes "distinct ks" "\<forall>k \<in> set ks. \<forall>f \<in> set (nf k). nat (level f) = k"
  shows "fold (store_item X) (concat (map (\<lambda>k. map Item_NewFence (nf k)) ks)) e
           = e\<lparr>new_fences := (\<lambda>k. if k \<in> set ks then new_fences e k @ nf k else new_fences e k)\<rparr>"
  using assms
proof (induction ks arbitrary: e)
  case Nil
  then show ?case by simp
next
  case (Cons k ks)
  then have l: "\<forall>f \<in> set (nf k). nat (level f) = k"
    and ls: "\<forall>k \<in> set ks. \<forall>f \<in> set (nf k). nat (level f) = k" and d: "distinct ks" "k \<notin> set ks"
    by simp_all
  let ?e1 = "e\<lparr>new_fences := (new_fences e)(k := new_fences e k @ nf k)\<rparr>"
  have eq: "(\<lambda>j. if j \<in> set ks then new_fences ?e1 j @ nf j else new_fences ?e1 j)
        = (\<lambda>j. if j \<in> set (k # ks) then new_fences e j @ nf j else new_fences e j)"
    using d(2) by auto
  have "fold (store_item X) (concat (map (\<lambda>k. map Item_NewFence (nf k)) (k # ks))) e
        = fold (store_item X) (concat (map (\<lambda>k. map Item_NewFence (nf k)) ks)) ?e1"
    by (simp add: fold_store_fences_level [OF l])
  also have "\<dots> = ?e1\<lparr>new_fences :=
                       (\<lambda>j. if j \<in> set ks then new_fences ?e1 j @ nf j else new_fences ?e1 j)\<rparr>"
    by (rule Cons.IH [OF d(1) ls])
  also have "\<dots> = e\<lparr>new_fences :=
                       (\<lambda>j. if j \<in> set (k # ks) then new_fences e j @ nf j else new_fences e j)\<rparr>"
    unfolding eq by simp
  finally show ?case .
qed

lemma fold_store_complete_fences:
  assumes "distinct ks" "\<forall>k \<in> set ks. \<forall>f \<in> set (nf k). nat (level f) = k"
  shows "fold (store_item X) (concat (map (\<lambda>k. map Item_NewCompleteFence (nf k)) ks)) e
           = e\<lparr>new_complete_fences :=
                 (\<lambda>k. if k \<in> set ks then new_complete_fences e k @ nf k
                      else new_complete_fences e k)\<rparr>"
  using assms
proof (induction ks arbitrary: e)
  case Nil
  then show ?case by simp
next
  case (Cons k ks)
  then have l: "\<forall>f \<in> set (nf k). nat (level f) = k"
    and ls: "\<forall>k \<in> set ks. \<forall>f \<in> set (nf k). nat (level f) = k" and d: "distinct ks" "k \<notin> set ks"
    by simp_all
  let ?e1 = "e\<lparr>new_complete_fences := (new_complete_fences e)(k := new_complete_fences e k @ nf k)\<rparr>"
  have eq: "(\<lambda>j. if j \<in> set ks then new_complete_fences ?e1 j @ nf j else new_complete_fences ?e1 j)
        = (\<lambda>j. if j \<in> set (k # ks) then new_complete_fences e j @ nf j else new_complete_fences e j)"
    using d(2) by auto
  have "fold (store_item X) (concat (map (\<lambda>k. map Item_NewCompleteFence (nf k)) (k # ks))) e
        = fold (store_item X) (concat (map (\<lambda>k. map Item_NewCompleteFence (nf k)) ks)) ?e1"
    by (simp add: fold_store_complete_fences_level [OF l])
  also have "\<dots> = ?e1\<lparr>new_complete_fences :=
                       (\<lambda>j. if j \<in> set ks then new_complete_fences ?e1 j @ nf j else new_complete_fences ?e1 j)\<rparr>"
    by (rule Cons.IH [OF d(1) ls])
  also have "\<dots> = e\<lparr>new_complete_fences :=
                       (\<lambda>j. if j \<in> set (k # ks) then new_complete_fences e j @ nf j else new_complete_fences e j)\<rparr>"
    unfolding eq by simp
  finally show ?case .
qed

lemma VersionEdit_new_eq:
  "VersionEdit_new X =
     \<lparr>comparator = [], log_number = 0, prev_log_number = 0, next_file_number = 0,
      last_sequence = 0, has_comparator = False, has_log_number = False,
      has_prev_log_number = False, has_next_file_number = False,
      has_last_sequence = False, compact_pointers = [], deleted_files = [],
      new_files = [], sentinel_files = (\<lambda>i. []), sentinel_file_nos = (\<lambda>i. []),
      deleted_sentinel_files = [], new_fences = (\<lambda>i. []),
      new_complete_fences = (\<lambda>i. []), deleted_fences = []\<rparr>"
  by (simp add: VersionEdit_new_def VersionEdit_Clear_def cong: if_cong)

lemma Clear_new [simp]: "VersionEdit_Clear X (VersionEdit_new X) = VersionEdit_new X"
  by (simp add: VersionEdit_new_eq) (simp add: VersionEdit_Clear_def cong: if_cong)

lemma fold_store_scalars:
  "has_comparator e \<or> comparator e = [] \<Longrightarrow> comparator e0 = [] \<Longrightarrow> \<not> has_comparator e0 \<Longrightarrow>
   fold (store_item X) (if has_comparator e then [Item_Comparator (comparator e)] else []) e0
     = e0\<lparr>comparator := comparator e, has_comparator := has_comparator e\<rparr>"
  "has_log_number e \<or> log_number e = 0 \<Longrightarrow> log_number e0 = 0 \<Longrightarrow> \<not> has_log_number e0 \<Longrightarrow>
   fold (store_item X) (if has_log_number e then [Item_LogNumber (log_number e)] else []) e0
     = e0\<lparr>log_number := log_number e, has_log_number := has_log_number e\<rparr>"
  "has_prev_log_number e \<or> prev_log_number e = 0 \<Longrightarrow> prev_log_number e0 = 0
   \<Longrightarrow> \<not> has_prev_log_number e0 \<Longrightarrow>
   fold (store_item X)
     (if has_prev_log_number e then [Item_PrevLogNumber (prev_log_number e)] else []) e0
     = e0\<lparr>prev_log_number := prev_log_number e, has_prev_log_number := has_prev_log_number e\<rparr>"
  "has_next_file_number e \<or> next_file_number e = 0 \<Longrightarrow> next_file_number e0 = 0
   \<Longrightarrow> \<not> has_next_file_number e0 \<Longrightarrow>
   fold (store_item X)
     (if has_next_file_number e then [Item_NextFileNumber (next_file_number e)] else []) e0
     = e0\<lparr>next_file_number := next_file_number e, has_next_file_number := has_next_file_number e\<rparr>"
  "has_last_sequence e \<or> last_sequence e = 0 \<Longrightarrow> last_sequence e0 = 0
   \<Longrightarrow> \<not> has_last_sequence e0 \<Longrightarrow>
   fold (store_item X) (if has_last_sequence e then [Item_LastSequence (last_sequence e)] else []) e0
     = e0\<lparr>last_sequence := last_sequence e, has_last_sequence := has_last_sequence e\<rparr>"
  by auto

lemma fold_store_items_of:
  assumes "edit_inv X e"
  shows "fold (store_item X) (items_of X e) (VersionEdit_new X)
           = e\<lparr>sentinel_files := (\<lambda>i. []), sentinel_file_nos := (\<lambda>i. [])\<rparr>"
proof -
  from assms have
    sc: "has_comparator e \<or> comparator e = []" "has_log_number e \<or> log_number e = 0"
      "has_prev_log_number e \<or> prev_log_number e = 0"
      "has_next_file_number e \<or> next_file_number e = 0"
      "has_last_sequence e \<or> last_sequence e = 0"
    and s1: "sorted_wrt file_pair_less (deleted_files e)"
    and s2: "sorted_wrt file_pair_less (deleted_sentinel_files e)"
    and s3: "sorted_wrt level_less (deleted_fences e)"
    and f1: "\<forall>k. \<forall>f \<in> set (new_fences e k). level f = int k \<and> k < kNumLevels X"
    and f2: "\<forall>k. \<forall>f \<in> set (new_complete_fences e k). level f = int k \<and> k < kNumLevels X"
    by (simp_all add: edit_inv_def scalars_ok_def file_set_ok_def fence_set_ok_def fences_ok_def)
  have d1: "fold (set_insert file_pair_less) (deleted_files e) [] = deleted_files e"
    using fold_set_insert_sorted [of file_pair_less "[]" "deleted_files e"] s1 file_pair_less_asym by auto
  have d2: "fold (set_insert file_pair_less) (deleted_sentinel_files e) [] = deleted_sentinel_files e"
    using fold_set_insert_sorted [of file_pair_less "[]" "deleted_sentinel_files e"] s2 file_pair_less_asym
    by auto
  have d3: "fold (set_insert level_less) (deleted_fences e) [] = deleted_fences e"
    using fold_set_insert_sorted [of level_less "[]" "deleted_fences e"] s3
      level_less_asym by auto
  have l1: "\<forall>k \<in> set [0 ..< kNumLevels X]. \<forall>f \<in> set (new_fences e k). nat (level f) = k"
    using f1 by auto
  have l2: "\<forall>k \<in> set [0 ..< kNumLevels X]. \<forall>f \<in> set (new_complete_fences e k). nat (level f) = k"
    using f2 by auto
  have n1: "(\<lambda>k. if k < kNumLevels X then new_fences e k else []) = new_fences e"
  proof
    fix k show "(if k < kNumLevels X then new_fences e k else []) = new_fences e k"
    proof (cases "new_fences e k")
      case Nil
      then show ?thesis by simp
    next
      case (Cons a list)
      then have "a \<in> set (new_fences e k)" by simp
      with f1 have "k < kNumLevels X" by blast
      then show ?thesis by simp
    qed
  qed
  have n2: "(\<lambda>k. if k < kNumLevels X then new_complete_fences e k else []) = new_complete_fences e"
  proof
    fix k show "(if k < kNumLevels X then new_complete_fences e k else []) = new_complete_fences e k"
    proof (cases "new_complete_fences e k")
      case Nil
      then show ?thesis by simp
    next
      case (Cons a list)
      then have "a \<in> set (new_complete_fences e k)" by simp
      with f2 have "k < kNumLevels X" by blast
      then show ?thesis by simp
    qed
  qed
  let ?n = "VersionEdit_new X"
  have "fold (store_item X) (items_of X e) ?n
        = ?n\<lparr>comparator := comparator e, has_comparator := has_comparator e,
             log_number := log_number e, has_log_number := has_log_number e,
             prev_log_number := prev_log_number e, has_prev_log_number := has_prev_log_number e,
             next_file_number := next_file_number e,
             has_next_file_number := has_next_file_number e,
             last_sequence := last_sequence e, has_last_sequence := has_last_sequence e,
             compact_pointers := compact_pointers e, deleted_files := deleted_files e,
             new_files := new_files e, deleted_fences := deleted_fences e,
             new_fences := new_fences e, new_complete_fences := new_complete_fences e,
             deleted_sentinel_files := deleted_sentinel_files e\<rparr>"
    unfolding items_of_def fold_append comp_def
    by (simp add: fold_store_scalars sc VersionEdit_new_eq
          fold_store_compact fold_store_new_files fold_store_deleted_files
          fold_store_deleted_sentinel_files fold_store_deleted_fences
          fold_store_fences [OF distinct_upt l1] fold_store_complete_fences [OF distinct_upt l2]
          d1 d2 d3 n1 n2 cong: if_cong)
  also have "\<dots> = e\<lparr>sentinel_files := (\<lambda>i. []), sentinel_file_nos := (\<lambda>i. [])\<rparr>"
    by (intro VersionEdit.equality) (simp_all add: VersionEdit_new_eq)
  finally show ?thesis .
qed

lemma items_ok_iff:
  "(\<forall>it \<in> set (items_of X e). item_ok X it) \<longleftrightarrow>
     (has_comparator e \<longrightarrow> fits32 (comparator e))
     \<and> (\<forall>p \<in> set (compact_pointers e). in_levels X (fst p) \<and> key_ok X (snd p))
     \<and> (\<forall>p \<in> set (deleted_files e). in_levels X (fst p))
     \<and> (\<forall>p \<in> set (new_files e). in_levels X (fst p) \<and> key_ok X (smallest (snd p))
            \<and> key_ok X (largest (snd p)) \<and> plain_file (snd p))
     \<and> (\<forall>p \<in> set (deleted_fences e). in_levels X (fst p) \<and> key_ok X (snd p))
     \<and> (\<forall>k < kNumLevels X. \<forall>f \<in> set (new_fences e k).
            in_levels X (level f) \<and> key_ok X (fence_key f) \<and> plain_fence f)
     \<and> (\<forall>k < kNumLevels X. \<forall>f \<in> set (new_complete_fences e k).
            in_levels X (level f) \<and> key_ok X (fence_key f) \<and> plain_fence f)
     \<and> (\<forall>p \<in> set (deleted_sentinel_files e). in_levels X (fst p))"
  unfolding items_of_def set_append ball_Un set_map set_concat ball_simps
  by (simp add: ball_UN cong: conj_cong) (auto split: if_splits)

lemma fences_ok_items:
  assumes "fences_ok X F"
  shows "\<forall>k < kNumLevels X. \<forall>f \<in> set (F k).
           in_levels X (level f) \<and> key_ok X (fence_key f) \<and> plain_fence f"
proof (intro allI impI ballI)
  fix k f assume "k < kNumLevels X" "f \<in> set (F k)"
  with assms have "level f = int k" "key_ok X (fence_key f)" "plain_fence f"
    unfolding fences_ok_def by blast+
  with \<open>k < kNumLevels X\<close> show "in_levels X (level f) \<and> key_ok X (fence_key f) \<and> plain_fence f"
    by (simp add: in_levels_def)
qed

lemma edit_inv_items:
  assumes "edit_inv X e"
  shows "\<forall>it \<in> set (items_of X e). item_ok X it"
  unfolding items_ok_iff
  using assms fences_ok_items [of X "new_fences e"] fences_ok_items [of X "new_complete_fences e"]
  by (simp add: edit_inv_def scalars_ok_def pointers_ok_def file_set_ok_def new_files_ok_def
                fence_set_ok_def)

lemma edit_inv_new: "edit_inv X (VersionEdit_new X)"
  by (simp add: edit_inv_def VersionEdit_new_eq scalars_ok_def pointers_ok_def file_set_ok_def
                new_files_ok_def fence_set_ok_def fences_ok_def fits32_def)

lemma ball_set_insert:
  "P x \<Longrightarrow> \<forall>y \<in> set xs. P y \<Longrightarrow> \<forall>y \<in> set (set_insert lt x xs). P y"
  using set_set_insert [of lt x xs] by auto

lemma plain_fence_init:
  "plain_fence (FenceMetaData_init\<lparr>fence_key := key, level := lvl, number_segments := 0\<rparr>)"
  by (simp add: plain_fence_def FenceMetaData_init_def)

lemma plain_file_init:
  "plain_file (FileMetaData_init\<lparr>number := a, file_size := b, smallest := c, largest := d\<rparr>)"
  by (simp add: plain_file_def FileMetaData_init_def)

lemma file_set_ok_insert:
  assumes "file_set_ok X ps" "in_levels X lvl"
  shows "file_set_ok X (set_insert file_pair_less (lvl, fno) ps)"
proof -
  have "\<forall>p \<in> set (set_insert file_pair_less (lvl, fno) ps). in_levels X (fst p)"
    using assms by (intro ball_set_insert) (simp_all add: file_set_ok_def)
  moreover have "sorted_wrt file_pair_less (set_insert file_pair_less (lvl, fno) ps)"
    using assms by (intro sorted_set_insert) (auto intro: file_pair_less_trans simp: file_set_ok_def)
  ultimately show ?thesis by (simp add: file_set_ok_def)
qed

lemma fence_set_ok_insert:
  assumes "fence_set_ok X ps" "in_levels X lvl" "key_ok X key"
  shows "fence_set_ok X (set_insert level_less (lvl, key) ps)"
proof -
  have "\<forall>p \<in> set (set_insert level_less (lvl, key) ps). in_levels X (fst p) \<and> key_ok X (snd p)"
    using assms by (intro ball_set_insert) (simp_all add: fence_set_ok_def pointers_ok_def)
  moreover have "sorted_wrt level_less (set_insert level_less (lvl, key) ps)"
    using assms(1)
    by (intro sorted_set_insert) (auto intro: level_less_trans simp: fence_set_ok_def)
  ultimately show ?thesis by (simp add: fence_set_ok_def pointers_ok_def)
qed

lemma fences_ok_append:
  assumes "fences_ok X F" "in_levels X lvl" "key_ok X key"
  shows "fences_ok X (F(nat lvl := F (nat lvl)
           @ [FenceMetaData_init\<lparr>fence_key := key, level := lvl, number_segments := 0\<rparr>]))"
proof -
  from assms(2) have n: "int (nat lvl) = lvl" "nat lvl < kNumLevels X" by (auto simp: in_levels_def)
  show ?thesis
    using assms(1,3) n plain_fence_init [where key = key and lvl = lvl]
    unfolding fences_ok_def by (auto split: if_splits)
qed

lemma edit_inv_step:
  assumes "edit_inv X e" "edit_call_ok X c" "apply_edit_call X c e = Inr e'"
  shows "edit_inv X e'"
proof -
  from assms(1) have I: "scalars_ok e" "pointers_ok X (compact_pointers e)"
    "file_set_ok X (deleted_files e)" "new_files_ok X (new_files e)"
    "fence_set_ok X (deleted_fences e)" "fences_ok X (new_fences e)"
    "fences_ok X (new_complete_fences e)" "file_set_ok X (deleted_sentinel_files e)"
    by (simp_all add: edit_inv_def)
  show ?thesis
  proof (cases c)
    case (Call_SetComparatorName name)
    with assms(2,3) have "e' = SetComparatorName name e" "fits32 name" by simp_all
    with I show ?thesis by (simp add: edit_inv_def scalars_ok_def SetComparatorName_def)
  next
    case (Call_SetLogNumber num)
    with assms(3) have "e' = SetLogNumber num e" by simp
    with I show ?thesis by (simp add: edit_inv_def scalars_ok_def SetLogNumber_def)
  next
    case (Call_SetPrevLogNumber num)
    with assms(3) have "e' = SetPrevLogNumber num e" by simp
    with I show ?thesis by (simp add: edit_inv_def scalars_ok_def SetPrevLogNumber_def)
  next
    case (Call_SetNextFile num)
    with assms(3) have "e' = SetNextFile num e" by simp
    with I show ?thesis by (simp add: edit_inv_def scalars_ok_def SetNextFile_def)
  next
    case (Call_SetLastSequence num)
    with assms(3) have "e' = SetLastSequence num e" by simp
    with I show ?thesis by (simp add: edit_inv_def scalars_ok_def SetLastSequence_def)
  next
    case (Call_SetCompactPointer lvl key)
    with assms(2,3) have "e' = SetCompactPointer lvl key e" "in_levels X lvl" "key_ok X key"
      by simp_all
    with I show ?thesis
      by (simp add: edit_inv_def scalars_ok_def SetCompactPointer_def pointers_ok_def)
  next
    case (Call_AddFile lvl fno fsize sm lg)
    with assms(2,3) have "e' = AddFile lvl fno fsize sm lg e" "in_levels X lvl" "key_ok X sm"
      "key_ok X lg" by simp_all
    with I plain_file_init [where a = fno and b = fsize and c = sm and d = lg] show ?thesis
      by (simp add: edit_inv_def scalars_ok_def AddFile_def new_files_ok_def Let_def)
  next
    case (Call_RemoveFile lvl fno)
    with assms(2,3) have "e' = RemoveFile lvl fno e" "in_levels X lvl" by simp_all
    with I file_set_ok_insert [of X "deleted_files e" lvl fno] show ?thesis
      by (simp add: edit_inv_def scalars_ok_def RemoveFile_def)
  next
    case (Call_AddFence lvl key)
    with assms(2,3) have k: "key_ok X key" and a: "AddFence X lvl key e = Inr e'" by simp_all
    from a have l: "in_levels X lvl" by (simp add: AddFence_def split: if_splits)
    with a have "e' = e\<lparr>new_fences := (new_fences e)(nat lvl := new_fences e (nat lvl)
        @ [FenceMetaData_init\<lparr>fence_key := key, level := lvl, number_segments := 0\<rparr>])\<rparr>"
      by (simp add: AddFence_def Let_def)
    with I fences_ok_append [OF I(6) l k] show ?thesis
      by (simp add: edit_inv_def scalars_ok_def)
  next
    case (Call_AddCompleteFence lvl key)
    with assms(2,3) have k: "key_ok X key" and a: "AddCompleteFence X lvl key e = Inr e'"
      by simp_all
    from a have l: "in_levels X lvl" by (simp add: AddCompleteFence_def split: if_splits)
    with a have "e' = e\<lparr>new_complete_fences := (new_complete_fences e)(nat lvl :=
        new_complete_fences e (nat lvl)
        @ [FenceMetaData_init\<lparr>fence_key := key, level := lvl, number_segments := 0\<rparr>])\<rparr>"
      by (simp add: AddCompleteFence_def Let_def)
    with I fences_ok_append [OF I(7) l k] show ?thesis
      by (simp add: edit_inv_def scalars_ok_def)
  next
    case (Call_DeleteFence lvl key)
    with assms(2,3) have a: "DeleteFence lvl key e = Inr e'" and l: "in_levels X lvl"
      and k: "key_ok X key" by simp_all
    from a obtain s where s: "deleted_fences_insert (lvl, key) (deleted_fences e) = Inr s"
      and e': "e' = e\<lparr>deleted_fences := s\<rparr>"
      by (cases "deleted_fences_insert (lvl, key) (deleted_fences e)")
         (simp_all add: DeleteFence_def)
    from I(5) have "sorted_wrt level_less (deleted_fences e)" by (simp add: fence_set_ok_def)
    from deleted_fences_insert_returns(2) [OF this s]
    have "s = set_insert level_less (lvl, key) (deleted_fences e)" .
    with e' I fence_set_ok_insert [OF I(5) l k] show ?thesis
      by (simp add: edit_inv_def scalars_ok_def)
  next
    case (Call_AddSentinelFile lvl seeks fsize f lg sm num rfs)
    with assms(3) have "AddSentinelFile X lvl seeks fsize f lg sm num rfs e = Inr e'" by simp
    then obtain v where "e' = e\<lparr>sentinel_files := v\<rparr>"
      by (auto simp: AddSentinelFile_def Let_def split: if_splits)
    with I show ?thesis by (simp add: edit_inv_def scalars_ok_def)
  next
    case (Call_AddFileToSentinel fm lvl)
    with assms(3) have "AddFileToSentinel X fm lvl e = Inr e'" by simp
    then obtain v where "e' = e\<lparr>sentinel_files := v\<rparr>"
      by (auto simp: AddFileToSentinel_def Let_def split: if_splits)
    with I show ?thesis by (simp add: edit_inv_def scalars_ok_def)
  next
    case (Call_AddSentinelFileNo lvl no)
    with assms(3) have "AddSentinelFileNo X lvl no e = Inr e'" by simp
    then obtain v where "e' = e\<lparr>sentinel_file_nos := v\<rparr>"
      by (auto simp: AddSentinelFileNo_def split: if_splits)
    with I show ?thesis by (simp add: edit_inv_def scalars_ok_def)
  next
    case (Call_DeleteSentinelFile lvl fno)
    with assms(2,3) have "e' = DeleteSentinelFile lvl fno e" "in_levels X lvl" by simp_all
    with I file_set_ok_insert [of X "deleted_sentinel_files e" lvl fno] show ?thesis
      by (simp add: edit_inv_def scalars_ok_def DeleteSentinelFile_def)
  qed
qed

lemma edit_inv_calls:
  assumes "edit_inv X e0" "\<forall>c \<in> set cs. edit_call_ok X c"
    "apply_edit_calls X cs e0 = Inr e"
  shows "edit_inv X e"
  using assms
proof (induction cs arbitrary: e0)
  case Nil
  then show ?case by simp
next
  case (Cons c cs)
  from Cons.prems(3) obtain e1 where e1: "apply_edit_call X c e0 = Inr e1"
    and r: "apply_edit_calls X cs e1 = Inr e"
    by (cases "apply_edit_call X c e0") simp_all
  from Cons.prems(2) have c: "edit_call_ok X c" and cs: "\<forall>c \<in> set cs. edit_call_ok X c" by auto
  from edit_inv_step [OF Cons.prems(1) c e1] have "edit_inv X e1" .
  from Cons.IH [OF this cs r] show ?case .
qed

lemma decode_items:
  assumes "levels_ok X" "\<forall>it \<in> set its. item_ok X it" "distinct (deleted_levels its)"
  shows "DecodeFrom X (concat (map item_bytes its)) (VersionEdit_new X)
           = Inr (OK, fold (store_item X) its (VersionEdit_new X))"
proof -
  let ?d = "\<lparr>d_edit = VersionEdit_new X, d_g = FenceMetaData_init,
             d_tag2 = None, d_fnumber = None\<rparr>"
  have p: "plain_fence (d_g ?d)" by (simp add: plain_fence_def FenceMetaData_init_def)
  have n: "set (deleted_levels its) \<inter> fst ` set (deleted_fences (d_edit ?d)) = {}"
    by (simp add: VersionEdit_new_eq)
  from DecodeFrom_loop_items [OF assms(1,2) p assms(3) n, of "[]"] show ?thesis
    by (simp add: DecodeFrom_def d_edit_fold)
qed

lemma deleted_levels_items_of:
  "deleted_levels (items_of X e) = map fst (deleted_fences e)"
proof -
  have a: "deleted_levels (map F xs) = []" if "\<And>x. item_deleted_level (F x) = []"
    for F :: "'a \<Rightarrow> item" and xs
    using that by (induction xs) simp_all
  have b: "deleted_levels (concat (map (\<lambda>k. map F (G k)) ks)) = []"
    if "\<And>x. item_deleted_level (F x) = []"
    for F :: "FenceMetaData \<Rightarrow> item" and G :: "nat \<Rightarrow> FenceMetaData list" and ks
    using that by (induction ks) (simp_all add: a)
  have c: "deleted_levels (map (\<lambda>p. Item_DeletedFence (fst p) (snd p)) xs) = map fst xs" for xs
    by (induction xs) simp_all
  show ?thesis by (simp add: items_of_def a b c)
qed

lemma edit_inv_distinct:
  assumes "edit_inv X e"
  shows "distinct (deleted_levels (items_of X e))"
proof -
  have d: "sorted_wrt (<) xs \<Longrightarrow> distinct xs" for xs :: "int list"
    by (induction xs) auto
  have l: "level_less = (\<lambda>x y. fst x < fst y)" by (simp add: fun_eq_iff level_less_def)
  from assms have "sorted_wrt level_less (deleted_fences e)"
    by (simp add: edit_inv_def fence_set_ok_def)
  then have "sorted_wrt (<) (map fst (deleted_fences e))"
    by (simp add: sorted_wrt_map l)
  then have "distinct (map fst (deleted_fences e))" by (rule d)
  then show ?thesis by (simp add: deleted_levels_items_of)
qed

lemma levels_ok_example: "levels_ok X_example"
  by (simp add: levels_ok_def X_example_simps)

lemma deleted_fences_new [simp]: "deleted_fences (VersionEdit_new X) = []"
  by (simp add: VersionEdit_new_eq)

text \<open>
  A second \<open>DeleteFence\<close> at a level calls through the null \<open>internal_comparator\<close>,
  whatever the two keys are.
\<close>

lemma DeleteFence_same_level:
  "apply_edit_calls X [Call_DeleteFence lvl a, Call_DeleteFence lvl b] (VersionEdit_new X)
     = Inl NullDereference"
  by (simp add: DeleteFence_def deleted_fences_insert_def BySmallestPair_def)

lemma decode_encoded_calls:
  assumes "levels_ok X" "\<forall>c \<in> set cs. edit_call_ok X c"
    "apply_edit_calls X cs (VersionEdit_new X) = Inr e"
  shows "decode_encoded X e
           = Inr (OK, e\<lparr>sentinel_files := (\<lambda>i. []), sentinel_file_nos := (\<lambda>i. [])\<rparr>)"
proof -
  from edit_inv_calls [OF edit_inv_new assms(2,3)] have i: "edit_inv X e" .
  from decode_items [OF assms(1) edit_inv_items [OF i] edit_inv_distinct [OF i]]
    fold_store_items_of [OF i]
  show ?thesis by (simp add: decode_encoded_def EncodeTo_items)
qed

text \<open>
  Claim C1, as the code has it.  An edit is built from a fresh one by calls of the mutators
  the claim lists, every call returns (no assertion fails and no call goes through the null
  comparator pointer of the deleted-fence set), the levels are below the level count where
  the mutator does not assert it, the keys decode, and the key and name lengths fit the
  32-bit length prefix.  Decoding the bytes \<open>EncodeTo\<close> gives for it into a fresh edit
  succeeds, and the decoded edit has every field of the original other than the two
  per-level sentinel lists: the five scalars with their flags, the compaction pointers
  and new files in order, the three sets, and the per-level lists of fences.  Of the two
  sentinel lists of the decoded edit the statement says nothing.
\<close>

theorem VersionEdit_roundtrip:
  assumes "levels_ok X" "\<forall>c \<in> set cs. edit_call_ok X c"
    "apply_edit_calls X cs (VersionEdit_new X) = Inr e"
  shows "\<exists>e'. decode_encoded X e = Inr (OK, e')
              \<and> e'\<lparr>sentinel_files := sentinel_files e, sentinel_file_nos := sentinel_file_nos e\<rparr> = e"
  using decode_encoded_calls [OF assms] by simp

lemma example_edit_calls_run:
  "\<exists>e. apply_edit_calls X_example example_edit_calls (VersionEdit_new X_example) = Inr e
        \<and> deleted_fences e = [(1, [9]), (3, [8])]"
  by (simp add: example_edit_calls_def AddFence_def AddCompleteFence_def in_levels_def
                X_example_simps Let_def DeleteFence_def deleted_fences_insert_def
                BySmallestPair_def SetComparatorName_def SetLogNumber_def SetNextFile_def
                SetCompactPointer_def AddFile_def RemoveFile_def DeleteSentinelFile_def)

lemma example_edit_calls_ok: "\<forall>c \<in> set example_edit_calls. edit_call_ok X_example c"
  by (simp add: example_edit_calls_def in_levels_def key_ok_def fits32_def X_example_simps)

theorem VersionEdit_roundtrip_witness:
  "\<exists>e e'. apply_edit_calls X_example example_edit_calls (VersionEdit_new X_example) = Inr e
          \<and> deleted_fences e = [(1, [9]), (3, [8])]
          \<and> decode_encoded X_example e = Inr (OK, e')
          \<and> e'\<lparr>sentinel_files := sentinel_files e, sentinel_file_nos := sentinel_file_nos e\<rparr> = e"
proof -
  from example_edit_calls_run obtain e where
    e: "apply_edit_calls X_example example_edit_calls (VersionEdit_new X_example) = Inr e"
    and d: "deleted_fences e = [(1, [9]), (3, [8])]" by blast
  from VersionEdit_roundtrip [OF levels_ok_example example_edit_calls_ok e] e d
  show ?thesis by blast
qed

lemma get_varint_byte: "unat b < 128 \<Longrightarrow> get_varint (Suc k) s (b # r) = Some (unat b * 2 ^ s, r)"
  by simp

lemma GetVarint32_byte: "unat b < 128 \<Longrightarrow> GetVarint32 (b # r) = Some (ucast b, r)"
  using get_varint_byte [of b 4 0 r] by (simp add: GetVarint32_def)

lemma GetVarint64_byte: "unat b < 128 \<Longrightarrow> GetVarint64 (b # r) = Some (ucast b, r)"
  using get_varint_byte [of b 9 0 r] by (simp add: GetVarint64_def)

lemma GetVarint32_Nil [simp]: "GetVarint32 [] = None"
  by (simp add: GetVarint32_def get_varint_Nil)

lemma concat_map_Nil [simp]: "concat (map (\<lambda>k. []) xs) = []"
  by (induction xs) simp_all

lemma encode_level_7:
  "EncodeTo X_example (SetCompactPointer 7 [1] (VersionEdit_new X_example)) [] = [5, 7, 1, 1]"
  by (simp add: EncodeTo_items items_of_def SetCompactPointer_def VersionEdit_new_eq tag_defs
        put_defs Varint32_small [of 7, simplified] Varint32_small [of 5, simplified]
        LengthPrefixed_small byte_of_def)

lemma decode_level_7:
  "DecodeFrom X_example [5, 7, 1, 1] (VersionEdit_new X_example)
     = Inr (Corruption ''VersionEdit'' ''compaction pointer'', VersionEdit_new X_example)"
  by (simp add: DecodeFrom_def DecodeFrom_loop.simps [of _ _ "_ # _"] GetVarint32_byte
        DecodeFrom_switch_def tag_defs GetLevel_def X_example_simps failed_def)

lemma roundtrip_level_7:
  "roundtrip_calls X_example [Call_SetCompactPointer 7 [1]]
     = Inr (Corruption ''VersionEdit'' ''compaction pointer'', VersionEdit_new X_example)"
  by (simp add: roundtrip_calls_def decode_encoded_def encode_level_7 decode_level_7)

lemma encode_sentinel_no:
  "EncodeTo X_example
     ((VersionEdit_new X_example)\<lparr>sentinel_file_nos := (\<lambda>i. [])(0 := [5])\<rparr>) [] = []"
  by (simp add: EncodeTo_items items_of_def VersionEdit_new_eq)

lemma roundtrip_sentinel_no:
  "roundtrip_calls X_example [Call_AddSentinelFileNo 0 5] = Inr (OK, VersionEdit_new X_example)"
proof -
  have "apply_edit_calls X_example [Call_AddSentinelFileNo 0 5] (VersionEdit_new X_example)
          = Inr ((VersionEdit_new X_example)\<lparr>sentinel_file_nos := (\<lambda>i. [])(0 := [5])\<rparr>)"
    by (simp add: AddSentinelFileNo_def in_levels_def X_example_simps)
       (simp add: VersionEdit_new_eq)
  then show ?thesis
    by (simp add: roundtrip_calls_def decode_encoded_def encode_sentinel_no DecodeFrom_def
          DecodeFrom_loop_Nil)
qed

theorem VersionEdit_roundtrip_counterexample:
  "apply_edit_calls X_example [Call_SetCompactPointer 7 [1]] (VersionEdit_new X_example)
     = Inr (SetCompactPointer 7 [1] (VersionEdit_new X_example))
   \<and> EncodeTo X_example (SetCompactPointer 7 [1] (VersionEdit_new X_example)) [] = [5, 7, 1, 1]
   \<and> DecodeFrom X_example [5, 7, 1, 1] (VersionEdit_new X_example)
       = Inr (Corruption ''VersionEdit'' ''compaction pointer'', VersionEdit_new X_example)"
  using encode_level_7 decode_level_7 by simp

lemma Clear_Clear [simp]: "VersionEdit_Clear X (VersionEdit_Clear X e) = VersionEdit_Clear X e"
  by (simp add: VersionEdit_Clear_def cong: if_cong)

lemma map_cleared:
  "map (\<lambda>i. if i < n then [] else F i) [0 ..< n] = replicate n []"
  by (simp add: list_eq_iff_nth_eq)

text \<open>
  Claim C10.  \<open>Clear\<close> resets the five scalars and their flags, empties the compaction
  pointers, the deleted files and the new files, and empties the list of new fences and the
  list of sentinel files of every level; it leaves the deleted-fence set, the per-level lists
  of new complete fences and of sentinel file numbers, and the deleted-sentinel-file set as
  they were.  \<open>DecodeFrom\<close> begins with \<open>Clear\<close>: on no input it returns what
  \<open>Clear\<close> leaves, and on every input it returns what it returns after a \<open>Clear\<close>.
\<close>

theorem Clear_frame:
  "comparator (VersionEdit_Clear X e) = []
   \<and> log_number (VersionEdit_Clear X e) = 0
   \<and> prev_log_number (VersionEdit_Clear X e) = 0
   \<and> next_file_number (VersionEdit_Clear X e) = 0
   \<and> last_sequence (VersionEdit_Clear X e) = 0
   \<and> \<not> has_comparator (VersionEdit_Clear X e)
   \<and> \<not> has_log_number (VersionEdit_Clear X e)
   \<and> \<not> has_prev_log_number (VersionEdit_Clear X e)
   \<and> \<not> has_next_file_number (VersionEdit_Clear X e)
   \<and> \<not> has_last_sequence (VersionEdit_Clear X e)
   \<and> compact_pointers (VersionEdit_Clear X e) = []
   \<and> deleted_files (VersionEdit_Clear X e) = []
   \<and> new_files (VersionEdit_Clear X e) = []
   \<and> map (new_fences (VersionEdit_Clear X e)) [0 ..< kNumLevels X] = replicate (kNumLevels X) []
   \<and> map (sentinel_files (VersionEdit_Clear X e)) [0 ..< kNumLevels X]
       = replicate (kNumLevels X) []
   \<and> deleted_fences (VersionEdit_Clear X e) = deleted_fences e
   \<and> new_complete_fences (VersionEdit_Clear X e) = new_complete_fences e
   \<and> sentinel_file_nos (VersionEdit_Clear X e) = sentinel_file_nos e
   \<and> deleted_sentinel_files (VersionEdit_Clear X e) = deleted_sentinel_files e
   \<and> DecodeFrom X [] e = Inr (OK, VersionEdit_Clear X e)
   \<and> DecodeFrom X src e = DecodeFrom X src (VersionEdit_Clear X e)"
proof -
  have "map (new_fences (VersionEdit_Clear X e)) [0 ..< kNumLevels X] = replicate (kNumLevels X) []"
    "map (sentinel_files (VersionEdit_Clear X e)) [0 ..< kNumLevels X] = replicate (kNumLevels X) []"
    by (simp_all add: VersionEdit_Clear_def map_cleared)
  moreover have "DecodeFrom X [] e = Inr (OK, VersionEdit_Clear X e)"
    by (simp add: DecodeFrom_def)
  moreover have "DecodeFrom X src e = DecodeFrom X src (VersionEdit_Clear X e)"
    by (simp add: DecodeFrom_def)
  ultimately show ?thesis by (simp add: VersionEdit_Clear_def)
qed

lemma rounds_loop:
  "rounds X n d src = Some (d', input) \<Longrightarrow> DecodeFrom_loop X d src = DecodeFrom_loop X d' input"
proof (induction n arbitrary: d src)
  case 0
  then show ?case by simp
next
  case (Suc n)
  from Suc.prems obtain tag input1 where g: "GetVarint32 src = Some (tag, input1)"
    by (auto split: option.splits)
  with Suc.prems obtain d2 input2 where s: "DecodeFrom_switch X tag input1 d = Inr (None, input2, d2)"
    and r: "rounds X n d2 input2 = Some (d', input)"
    by (auto split: sum.splits option.splits prod.splits)
  from Suc.IH [OF r] g s show ?case
    by (subst DecodeFrom_loop.simps) simp
qed

lemma switch_level_fails:
  assumes "tag \<in> set level_tags" "GetLevel X input = None"
  shows "\<exists>msg. DecodeFrom_switch X tag input d = Inr (Some msg, input, d)"
  using assms
  by (auto simp: level_tags_def DecodeFrom_switch_def tag_defs GetFile_def GetFenceHead_def
                 failed_def)

text \<open>
  Claim C9.  The loop of \<open>DecodeFrom\<close> has stored \<open>n\<close> records and the input left begins
  with a tag whose payload begins with a level, followed by a value that is not below the
  level count.  Then \<open>DecodeFrom\<close> returns a \<open>Corruption\<close> status, and the edit is the
  one the \<open>n\<close> records left: the entry is not stored, at no level.
\<close>

theorem level_out_of_range:
  assumes "rounds X n (decoding_init X e) src = Some (d, input)"
    and "GetVarint32 input = Some (tag, r1)"
    and "tag \<in> set level_tags"
    and "GetVarint32 r1 = Some (v, r2)"
    and "kNumLevels X \<le> unat v"
  shows "\<exists>msg. DecodeFrom X src e = Inr (Corruption ''VersionEdit'' msg, d_edit d)"
proof -
  from assms(4,5) have "GetLevel X r1 = None" by (simp add: GetLevel_def)
  from switch_level_fails [OF assms(3) this, of d] obtain msg where
    m: "DecodeFrom_switch X tag r1 d = Inr (Some msg, r1, d)" ..
  with assms(2) have "DecodeFrom_loop X d input = Inr (Some msg, r1, d)"
    by (subst DecodeFrom_loop.simps) simp
  with rounds_loop [OF assms(1)] show ?thesis
    by (simp add: DecodeFrom_def decoding_init_def)
qed

theorem level_out_of_range_witness:
  "\<exists>msg. DecodeFrom X_example [2, 1, 5, 7, 1, 1] (VersionEdit_new X_example)
     = Inr (Corruption ''VersionEdit'' msg,
            (VersionEdit_new X_example)\<lparr>log_number := 1, has_log_number := True\<rparr>)"
proof -
  have r: "rounds X_example 1 (decoding_init X_example (VersionEdit_new X_example))
             [2, 1, 5, 7, 1, 1]
           = Some ((decoding_init X_example (VersionEdit_new X_example))
                     \<lparr>d_edit := (VersionEdit_new X_example)\<lparr>log_number := 1, has_log_number := True\<rparr>\<rparr>,
                   [5, 7, 1, 1])"
    by (simp add: GetVarint32_byte GetVarint64_byte DecodeFrom_switch_def tag_defs
                  decoding_init_def)
  have t: "kCompactPointer \<in> set level_tags" by (simp add: level_tags_def)
  from level_out_of_range [OF r _ t, of "[7, 1, 1]" 7 "[1, 1]"] show ?thesis
    by (simp add: GetVarint32_byte tag_defs X_example_simps)
qed

lemma files_inside_fence_entries:
  "files_inside_fence nd (length fs) (file_entries fs @ rest) t fn acc
     = Inr (rest, if fs = [] then t else Some kFileInsideFence,
            if fs = [] then fn else Some (last fs), acc @ fs)"
proof (induction fs arbitrary: t fn acc)
  case Nil
  then show ?case by (simp add: file_entries_def)
next
  case (Cons f fs)
  have "file_entries (f # fs) @ rest
          = Varint32 kFileInsideFence @ Varint64 f @ file_entries fs @ rest"
    by (simp add: file_entries_def put_defs)
  with Cons.IH [of "Some kFileInsideFence" "Some f" "acc @ [f]"] show ?case
    by (cases nd) (simp_all add: assert_tag2_def)
qed

lemma DecodeFrom_loop_fence_record:
  "DecodeFrom_loop X d (fence_record tag lvl n key @ rest)
     = (case DecodeFrom_switch X tag (Varint32 lvl @ Varint64 n @ LengthPrefixed key @ rest) d of
          Inl f \<Rightarrow> Inl f
        | Inr (Some msg, input2, d2) \<Rightarrow> Inr (Some msg, input2, d2)
        | Inr (None, input2, d2) \<Rightarrow> DecodeFrom_loop X d2 input2)"
  by (subst DecodeFrom_loop.simps) (simp add: fence_record_def put_defs)

lemma GetFenceHead_fence_record:
  assumes "unat lvl < kNumLevels X" "key_ok X key"
  shows "GetFenceHead X (Varint32 lvl @ Varint64 n @ LengthPrefixed key @ rest)
           = Some ((uint lvl, n, key), rest)"
  using assms by (simp add: GetFenceHead_def GetLevel_def)

lemma GetKeyPair_key_pair:
  assumes "key_ok X sm" "key_ok X lg"
  shows "GetKeyPair X (key_pair sm lg @ rest) = Some ((sm, lg), rest)"
  using assms by (simp add: GetKeyPair_def key_pair_def put_defs)

lemma files_last:
  "g\<lparr>files := a, fence_smallest := sm, fence_largest := lg\<rparr>
     = g\<lparr>fence_smallest := sm, fence_largest := lg, files := a\<rparr>"
  by (intro FenceMetaData.equality) simp_all

text \<open>
  One round of the loop of \<open>DecodeFrom\<close> on a fence record whose segment count is not zero,
  in any state of the loop and before any rest of the input.  In a build that evaluates its
  assertions the two keys are consumed; for a new fence the entries tagged
  \<open>kFileInsideFence\<close> are then read into the file list, and an entry with another tag
  stops the program; for a complete fence nothing more is read.
\<close>

lemma new_fence_round:
  assumes "\<not> NDEBUG X" "unat lvl < kNumLevels X" "key_ok X key" "key_ok X sm" "key_ok X lg"
    "n \<noteq> 0" "length fs = unat n"
  shows "DecodeFrom_loop X d
           (fence_record kNewFence lvl n key @ key_pair sm lg @ file_entries fs @ rest)
         = DecodeFrom_loop X
             ((push_new_fence (stored_fence (d_g d) lvl n key sm lg fs) d)
                \<lparr>d_tag2 := Some kFileInsideFence, d_fnumber := Some (last fs)\<rparr>) rest"
proof -
  from assms(6) have n: "0 < n" by (simp add: word_gt_0)
  from assms(6,7) have ne: "fs \<noteq> []" by (auto simp: unat_eq_0)
  have f: "files_inside_fence False (unat n) (file_entries fs @ rest) (d_tag2 d) (d_fnumber d) []
             = Inr (rest, Some kFileInsideFence, Some (last fs), fs)"
    using files_inside_fence_entries [of False fs rest "d_tag2 d" "d_fnumber d" "[]"] assms(7) ne
    by simp
  show ?thesis
    using n f assms(1)
      GetFenceHead_fence_record [OF assms(2,3), of n "key_pair sm lg @ file_entries fs @ rest"]
      GetKeyPair_key_pair [OF assms(4,5), of "file_entries fs @ rest"]
    by (simp add: DecodeFrom_loop_fence_record DecodeFrom_switch_def tag_defs assert_key_pair_def
                  Let_def push_new_fence_def stored_fence_def files_last)
qed

lemma new_fence_wrong_tag:
  assumes "\<not> NDEBUG X" "unat lvl < kNumLevels X" "key_ok X key" "key_ok X sm" "key_ok X lg"
    "n \<noteq> 0" "t \<noteq> kFileInsideFence"
  shows "DecodeFrom_loop X d (fence_record kNewFence lvl n key @ key_pair sm lg @ Varint32 t @ rest)
         = Inl AssertionFailed"
proof -
  from assms(6) have n: "0 < n" by (simp add: word_gt_0)
  from assms(6) obtain m where m: "unat n = Suc m"
    by (cases "unat n") (auto simp: unat_eq_0)
  show ?thesis
    using n assms(1,7)
      GetFenceHead_fence_record [OF assms(2,3), of n "key_pair sm lg @ Varint32 t @ rest"]
      GetKeyPair_key_pair [OF assms(4,5), of "Varint32 t @ rest"]
    by (simp add: DecodeFrom_loop_fence_record DecodeFrom_switch_def tag_defs assert_key_pair_def
                  Let_def m assert_tag2_def)
qed

lemma complete_fence_round:
  assumes "\<not> NDEBUG X" "unat lvl < kNumLevels X" "key_ok X key" "key_ok X sm" "key_ok X lg"
    "n \<noteq> 0"
  shows "DecodeFrom_loop X d (fence_record kNewCompleteFence lvl n key @ key_pair sm lg @ rest)
         = DecodeFrom_loop X
             (push_complete_fence (stored_fence (d_g d) lvl n key sm lg []) d) rest"
proof -
  from assms(6) have n: "0 < n" by (simp add: word_gt_0)
  show ?thesis
    using n assms(1)
      GetFenceHead_fence_record [OF assms(2,3), of n "key_pair sm lg @ rest"]
      GetKeyPair_key_pair [OF assms(4,5), of rest]
    by (simp add: DecodeFrom_loop_fence_record DecodeFrom_switch_def tag_defs assert_key_pair_def
                  Let_def push_complete_fence_def stored_fence_def files_last)
qed

text \<open>
  With \<open>NDEBUG\<close> the two keys are not consumed: the round ends after the fence key, the
  fence keeps the \<open>smallest\<close> and \<open>largest\<close> that \<open>g\<close> had, and what follows the
  fence key is read as the next record (complete fence) or as the file entries, whatever
  their tags (new fence).
\<close>

lemma complete_fence_round_NDEBUG:
  assumes "NDEBUG X" "unat lvl < kNumLevels X" "key_ok X key"
  shows "DecodeFrom_loop X d (fence_record kNewCompleteFence lvl n key @ rest)
         = DecodeFrom_loop X
             (push_complete_fence
                (stored_fence (d_g d) lvl n key (fence_smallest (d_g d)) (fence_largest (d_g d)) [])
                d) rest"
  using assms(1) GetFenceHead_fence_record [OF assms(2,3), of n rest]
  by (simp add: DecodeFrom_loop_fence_record DecodeFrom_switch_def tag_defs assert_key_pair_def
                Let_def push_complete_fence_def stored_fence_def files_last)

lemma new_fence_round_NDEBUG:
  assumes "NDEBUG X" "unat lvl < kNumLevels X" "key_ok X key"
    "files_inside_fence True (unat n) rest (d_tag2 d) (d_fnumber d) [] = Inr (r2, t, fn, fs)"
  shows "DecodeFrom_loop X d (fence_record kNewFence lvl n key @ rest)
         = DecodeFrom_loop X
             ((push_new_fence
                 (stored_fence (d_g d) lvl n key (fence_smallest (d_g d)) (fence_largest (d_g d)) fs)
                 d)\<lparr>d_tag2 := (if n = 0 then d_tag2 d else t),
                     d_fnumber := (if n = 0 then d_fnumber d else fn)\<rparr>) r2"
proof (cases "n = 0")
  case True
  with assms(4) have "r2 = rest" "fs = []" by simp_all
  with True assms(1) GetFenceHead_fence_record [OF assms(2,3), of n rest] show ?thesis
    by (simp add: DecodeFrom_loop_fence_record DecodeFrom_switch_def tag_defs assert_key_pair_def
                  Let_def push_new_fence_def stored_fence_def files_last)
next
  case False
  then have n: "0 < n" by (simp add: word_gt_0)
  with False assms(1,4) GetFenceHead_fence_record [OF assms(2,3), of n rest] show ?thesis
    by (simp add: DecodeFrom_loop_fence_record DecodeFrom_switch_def tag_defs assert_key_pair_def
                  Let_def push_new_fence_def stored_fence_def files_last)
qed

text \<open>
  \<open>EncodeTo\<close> writes the segment count \<open>0\<close> in every fence record, whatever the
  \<open>number_segments\<close> and \<open>files\<close> of the fence (see \<open>EncodeTo_items\<close> for the
  records of an edit).
\<close>

lemma item_bytes_fence:
  "item_bytes (Item_NewFence f) = fence_record kNewFence (word_of_int (level f)) 0 (fence_key f)"
  "item_bytes (Item_NewCompleteFence f)
     = fence_record kNewCompleteFence (word_of_int (level f)) 0 (fence_key f)"
  by (simp_all add: fence_record_def)

lemma fences_new [simp]:
  "new_fences (VersionEdit_new X) = (\<lambda>i. [])"
  "new_complete_fences (VersionEdit_new X) = (\<lambda>i. [])"
  by (simp_all add: VersionEdit_new_eq)

lemma X_release_simps:
  "kNumLevels X_release = 7" "InternalKey_valid X_release s = (s \<noteq> [])" "NDEBUG X_release"
  by (simp_all add: X_release_def X_example_def)

lemma files_inside_fence_2:
  "files_inside_fence nd 2 input t fn fs = files_inside_fence nd (Suc (Suc 0)) input t fn fs"
  by (simp only: numeral_2_eq_2)

lemmas decode_defs =
  DecodeFrom_def DecodeFrom_loop.simps [of _ _ "_ # _"] GetVarint32_byte GetVarint64_byte
  DecodeFrom_switch_def tag_defs GetFenceHead_def GetLevel_def GetInternalKey_def
  GetLengthPrefixedSlice_def InternalKey_DecodeFrom_def assert_key_pair_def GetKeyPair_def
  assert_tag2_def failed_def Let_def one_fence_def one_complete_fence_def decoded_fence_def
  stored_fence_def FenceMetaData_init_def files_inside_fence_2

lemma complete_fence_example:
  "DecodeFrom X_example [15, 3, 2, 1, 107, 1, 97, 1, 122] (VersionEdit_new X_example)
     = Inr (OK, one_complete_fence X_example 3 (decoded_fence 3 2 [107] [97] [122] []))"
  by (simp add: decode_defs X_example_simps)

lemma complete_fence_release:
  "DecodeFrom X_release [15, 3, 2, 1, 107, 1, 97, 1, 122] (VersionEdit_new X_release)
     = Inr (Corruption ''VersionEdit'' ''comparator name'',
            one_complete_fence X_release 3 (decoded_fence 3 2 [107] [] [] []))"
  by (simp add: decode_defs X_release_simps)

lemma new_fence_example:
  "DecodeFrom X_example [10, 3, 2, 1, 107, 1, 97, 1, 122, 12, 8, 12, 9] (VersionEdit_new X_example)
     = Inr (OK, one_fence X_example 3 (decoded_fence 3 2 [107] [97] [122] [8, 9]))"
  by (simp add: decode_defs X_example_simps)

lemma new_fence_release:
  "DecodeFrom X_release [10, 3, 2, 1, 107, 1, 97, 1, 122, 12, 8, 12, 9] (VersionEdit_new X_release)
     = Inr (Corruption ''VersionEdit'' ''unknown tag'',
            one_fence X_release 3 (decoded_fence 3 2 [107] [] [] [97, 122]))"
  by (simp add: decode_defs X_release_simps)

lemma new_fence_example_wrong_tag:
  "DecodeFrom X_example [10, 3, 2, 1, 107, 1, 97, 1, 122, 13, 8, 12, 9] (VersionEdit_new X_example)
     = Inl AssertionFailed"
  by (simp add: decode_defs X_example_simps)

text \<open>
  Claim C2.  \<open>EncodeTo\<close> writes the count \<open>0\<close> (\<open>item_bytes_fence\<close>), and in a
  build that evaluates its assertions \<open>DecodeFrom\<close> reads a fence record with a count
  that is not zero as the claim says (\<open>new_fence_round\<close>, \<open>complete_fence_round\<close>).
  The reads of the smallest and the largest key are the argument of an \<open>assert\<close>: with
  \<open>NDEBUG\<close> defined they are not made.  On a complete-fence record of level 3 with count
  2, fence key \<open>k\<close> and the keys \<open>a\<close> and \<open>z\<close>, the build with assertions
  returns \<open>OK\<close> and the fence with its two keys; the build with \<open>NDEBUG\<close> stores the
  fence without them and reads the first key as a comparator record, a \<open>Corruption\<close>.
  On the new-fence record with the same fields and the file entries 8 and 9, the build with
  assertions stores the files 8 and 9; the build with \<open>NDEBUG\<close> stores the bytes of the
  two keys, 97 and 122, as the file numbers and fails on the first file entry.
\<close>

theorem fence_key_pair_not_consumed:
  "DecodeFrom X_example [15, 3, 2, 1, 107, 1, 97, 1, 122] (VersionEdit_new X_example)
     = Inr (OK, one_complete_fence X_example 3 (decoded_fence 3 2 [107] [97] [122] []))
   \<and> DecodeFrom X_release [15, 3, 2, 1, 107, 1, 97, 1, 122] (VersionEdit_new X_release)
     = Inr (Corruption ''VersionEdit'' ''comparator name'',
            one_complete_fence X_release 3 (decoded_fence 3 2 [107] [] [] []))
   \<and> DecodeFrom X_example [10, 3, 2, 1, 107, 1, 97, 1, 122, 12, 8, 12, 9]
        (VersionEdit_new X_example)
     = Inr (OK, one_fence X_example 3 (decoded_fence 3 2 [107] [97] [122] [8, 9]))
   \<and> DecodeFrom X_release [10, 3, 2, 1, 107, 1, 97, 1, 122, 12, 8, 12, 9]
        (VersionEdit_new X_release)
     = Inr (Corruption ''VersionEdit'' ''unknown tag'',
            one_fence X_release 3 (decoded_fence 3 2 [107] [] [] [97, 122]))"
  using complete_fence_example complete_fence_release new_fence_example new_fence_release
  by simp

lemma strict_prefix_concat:
  assumes "strict_prefix p (concat xss)"
  shows "\<exists>k q. k < length xss \<and> p = concat (take k xss) @ q \<and> strict_prefix q (xss ! k)"
  using assms
proof (induction xss arbitrary: p)
  case Nil
  then show ?case by simp
next
  case (Cons xs xss)
  from Cons.prems have "strict_prefix p (xs @ concat xss)" by simp
  then consider "strict_prefix p xs" | p' where "p = xs @ p'" "strict_prefix p' (concat xss)"
    by (auto dest: strict_prefix_append_cases)
  then show ?case
  proof cases
    case 1
    then have "0 < length (xs # xss) \<and> p = concat (take 0 (xs # xss)) @ p
                \<and> strict_prefix p ((xs # xss) ! 0)" by simp
    then show ?thesis by blast
  next
    case 2
    from Cons.IH [OF 2(2)] obtain k q where
      "k < length xss" "p' = concat (take k xss) @ q" "strict_prefix q (xss ! k)" by blast
    with 2(1) have "Suc k < length (xs # xss) \<and> p = concat (take (Suc k) (xs # xss)) @ q
                     \<and> strict_prefix q ((xs # xss) ! Suc k)" by simp
    then show ?thesis by blast
  qed
qed

lemma level_key_truncated:
  assumes "levels_ok X" "in_levels X lvl" "key_ok X key"
    "strict_prefix q (Varint32 (word_of_int lvl) @ LengthPrefixed key)"
  shows "Option.bind (GetLevel X q) (\<lambda>(lvl, r1).
           Option.bind (GetInternalKey X r1) (\<lambda>(key, r2). Some ((lvl, key), r2))) = None"
  using assms
  by (auto dest!: strict_prefix_append_cases
           simp: GetLevel_truncated GetInternalKey_truncated)

lemma level_number_truncated:
  assumes "levels_ok X" "in_levels X lvl"
    "strict_prefix q (Varint32 (word_of_int lvl) @ Varint64 num)"
  shows "Option.bind (GetLevel X q) (\<lambda>(lvl, r1).
           Option.bind (GetVarint64 r1) (\<lambda>(num, r2). Some ((lvl, num), r2))) = None"
  using assms
  by (auto dest!: strict_prefix_append_cases
           simp: GetLevel_truncated GetVarint64_truncated)

lemma GetFile_truncated:
  assumes "levels_ok X" "in_levels X lvl" "key_ok X sm" "key_ok X lg"
    "strict_prefix q (Varint32 (word_of_int lvl) @ Varint64 num @ Varint64 fsize
                      @ LengthPrefixed sm @ LengthPrefixed lg)"
  shows "GetFile X q = None"
  using assms
  by (auto dest!: strict_prefix_append_cases
           simp: GetFile_def GetLevel_truncated GetVarint64_truncated GetInternalKey_truncated)

lemma GetFenceHead_truncated:
  assumes "levels_ok X" "in_levels X lvl" "key_ok X key"
    "strict_prefix q (Varint32 (word_of_int lvl) @ Varint64 n @ LengthPrefixed key)"
  shows "GetFenceHead X q = None"
  using assms
  by (auto dest!: strict_prefix_append_cases
           simp: GetFenceHead_def GetLevel_truncated GetVarint64_truncated
                 GetInternalKey_truncated)

lemma Varint32_tag: "unat t < 128 \<Longrightarrow> strict_prefix q (Varint32 t) \<Longrightarrow> q = []"
  by (cases q) (simp_all add: Varint32_def varint_enc.simps)

lemma tagged_truncated:
  assumes "unat t < 128" "strict_prefix q (Varint32 t @ payload)" "q \<noteq> []"
  shows "\<exists>q'. q = Varint32 t @ q' \<and> strict_prefix q' payload"
  using assms by (auto dest!: strict_prefix_append_cases dest: Varint32_tag)

lemma DecodeFrom_loop_tagged:
  "DecodeFrom_loop X d (Varint32 t @ q)
     = (case DecodeFrom_switch X t q d of
          Inl f \<Rightarrow> Inl f
        | Inr (Some msg, input2, d2) \<Rightarrow> Inr (Some msg, input2, d2)
        | Inr (None, input2, d2) \<Rightarrow> DecodeFrom_loop X d2 input2)"
  by (subst DecodeFrom_loop.simps) simp

lemma DecodeFrom_loop_truncated:
  assumes "levels_ok X" "item_ok X it" "strict_prefix q (item_bytes it)" "q \<noteq> []"
  shows "\<exists>msg r d'. DecodeFrom_loop X d q = Inr (Some msg, r, d')"
proof (cases it)
  case (Item_Comparator s)
  with assms(3) have "strict_prefix q (Varint32 kComparator @ LengthPrefixed s)"
    by (simp add: put_defs)
  from tagged_truncated [OF _ this assms(4)] obtain q' where q: "q = Varint32 kComparator @ q'"
    and p: "strict_prefix q' (LengthPrefixed s)"
    by (auto simp: tag_defs)
  from GetLengthPrefixedSlice_truncated [OF _ p] assms(2) Item_Comparator show ?thesis
    by (simp add: q DecodeFrom_loop_tagged DecodeFrom_switch_def failed_def tag_defs)
next
  case (Item_LogNumber v)
  with assms(3) have "strict_prefix q (Varint32 kLogNumber @ Varint64 v)"
    by (simp add: put_defs)
  from tagged_truncated [OF _ this assms(4)] obtain q' where q: "q = Varint32 kLogNumber @ q'"
    and p: "strict_prefix q' (Varint64 v)"
    by (auto simp: tag_defs)
  from GetVarint64_truncated [OF p]  show ?thesis
    by (simp add: q DecodeFrom_loop_tagged DecodeFrom_switch_def failed_def tag_defs)
next
  case (Item_PrevLogNumber v)
  with assms(3) have "strict_prefix q (Varint32 kPrevLogNumber @ Varint64 v)"
    by (simp add: put_defs)
  from tagged_truncated [OF _ this assms(4)] obtain q' where q: "q = Varint32 kPrevLogNumber @ q'"
    and p: "strict_prefix q' (Varint64 v)"
    by (auto simp: tag_defs)
  from GetVarint64_truncated [OF p]  show ?thesis
    by (simp add: q DecodeFrom_loop_tagged DecodeFrom_switch_def failed_def tag_defs)
next
  case (Item_NextFileNumber v)
  with assms(3) have "strict_prefix q (Varint32 kNextFileNumber @ Varint64 v)"
    by (simp add: put_defs)
  from tagged_truncated [OF _ this assms(4)] obtain q' where q: "q = Varint32 kNextFileNumber @ q'"
    and p: "strict_prefix q' (Varint64 v)"
    by (auto simp: tag_defs)
  from GetVarint64_truncated [OF p]  show ?thesis
    by (simp add: q DecodeFrom_loop_tagged DecodeFrom_switch_def failed_def tag_defs)
next
  case (Item_LastSequence v)
  with assms(3) have "strict_prefix q (Varint32 kLastSequence @ Varint64 v)"
    by (simp add: put_defs)
  from tagged_truncated [OF _ this assms(4)] obtain q' where q: "q = Varint32 kLastSequence @ q'"
    and p: "strict_prefix q' (Varint64 v)"
    by (auto simp: tag_defs)
  from GetVarint64_truncated [OF p]  show ?thesis
    by (simp add: q DecodeFrom_loop_tagged DecodeFrom_switch_def failed_def tag_defs)
next
  case (Item_CompactPointer lvl key)
  with assms(3) have "strict_prefix q (Varint32 kCompactPointer @ Varint32 (word_of_int lvl) @ LengthPrefixed key)"
    by (simp add: put_defs)
  from tagged_truncated [OF _ this assms(4)] obtain q' where q: "q = Varint32 kCompactPointer @ q'"
    and p: "strict_prefix q' (Varint32 (word_of_int lvl) @ LengthPrefixed key)"
    by (auto simp: tag_defs)
  from assms(2) Item_CompactPointer have "in_levels X lvl" "key_ok X key" by simp_all
  from level_key_truncated [OF assms(1) this p] show ?thesis
    by (simp add: q DecodeFrom_loop_tagged DecodeFrom_switch_def failed_def tag_defs)
next
  case (Item_DeletedFile lvl num)
  with assms(3) have "strict_prefix q (Varint32 kDeletedFile @ Varint32 (word_of_int lvl) @ Varint64 num)"
    by (simp add: put_defs)
  from tagged_truncated [OF _ this assms(4)] obtain q' where q: "q = Varint32 kDeletedFile @ q'"
    and p: "strict_prefix q' (Varint32 (word_of_int lvl) @ Varint64 num)"
    by (auto simp: tag_defs)
  from assms(2) Item_DeletedFile have "in_levels X lvl" by simp_all
  from level_number_truncated [OF assms(1) this p] show ?thesis
    by (simp add: q DecodeFrom_loop_tagged DecodeFrom_switch_def failed_def tag_defs)
next
  case (Item_NewFile lvl f)
  with assms(3) have "strict_prefix q (Varint32 kNewFile @ Varint32 (word_of_int lvl) @ Varint64 (number f)
              @ Varint64 (file_size f) @ LengthPrefixed (smallest f) @ LengthPrefixed (largest f))"
    by (simp add: put_defs)
  from tagged_truncated [OF _ this assms(4)] obtain q' where q: "q = Varint32 kNewFile @ q'"
    and p: "strict_prefix q' (Varint32 (word_of_int lvl) @ Varint64 (number f)
              @ Varint64 (file_size f) @ LengthPrefixed (smallest f) @ LengthPrefixed (largest f))"
    by (auto simp: tag_defs)
  from assms(2) Item_NewFile have "in_levels X lvl" "key_ok X (smallest f)" "key_ok X (largest f)" by simp_all
  from GetFile_truncated [OF assms(1) this p] show ?thesis
    by (simp add: q DecodeFrom_loop_tagged DecodeFrom_switch_def failed_def tag_defs)
next
  case (Item_DeletedFence lvl key)
  with assms(3) have "strict_prefix q (Varint32 kDeletedFence @ Varint32 (word_of_int lvl) @ LengthPrefixed key)"
    by (simp add: put_defs)
  from tagged_truncated [OF _ this assms(4)] obtain q' where q: "q = Varint32 kDeletedFence @ q'"
    and p: "strict_prefix q' (Varint32 (word_of_int lvl) @ LengthPrefixed key)"
    by (auto simp: tag_defs)
  from assms(2) Item_DeletedFence have "in_levels X lvl" "key_ok X key" by simp_all
  from level_key_truncated [OF assms(1) this p] show ?thesis
    by (simp add: q DecodeFrom_loop_tagged DecodeFrom_switch_def failed_def tag_defs)
next
  case (Item_NewFence f)
  with assms(3) have "strict_prefix q (Varint32 kNewFence @ Varint32 (word_of_int (level f)) @ Varint64 0
              @ LengthPrefixed (fence_key f))"
    by (simp add: put_defs)
  from tagged_truncated [OF _ this assms(4)] obtain q' where q: "q = Varint32 kNewFence @ q'"
    and p: "strict_prefix q' (Varint32 (word_of_int (level f)) @ Varint64 0
              @ LengthPrefixed (fence_key f))"
    by (auto simp: tag_defs)
  from assms(2) Item_NewFence have "in_levels X (level f)" "key_ok X (fence_key f)" by simp_all
  from GetFenceHead_truncated [OF assms(1) this p] show ?thesis
    by (simp add: q DecodeFrom_loop_tagged DecodeFrom_switch_def failed_def tag_defs)
next
  case (Item_NewCompleteFence f)
  with assms(3) have "strict_prefix q (Varint32 kNewCompleteFence @ Varint32 (word_of_int (level f)) @ Varint64 0
              @ LengthPrefixed (fence_key f))"
    by (simp add: put_defs)
  from tagged_truncated [OF _ this assms(4)] obtain q' where q: "q = Varint32 kNewCompleteFence @ q'"
    and p: "strict_prefix q' (Varint32 (word_of_int (level f)) @ Varint64 0
              @ LengthPrefixed (fence_key f))"
    by (auto simp: tag_defs)
  from assms(2) Item_NewCompleteFence have "in_levels X (level f)" "key_ok X (fence_key f)" by simp_all
  from GetFenceHead_truncated [OF assms(1) this p] show ?thesis
    by (simp add: q DecodeFrom_loop_tagged DecodeFrom_switch_def failed_def tag_defs)
next
  case (Item_DeletedSentinelFile lvl num)
  with assms(3) have "strict_prefix q (Varint32 kDeletedSentinelFile @ Varint32 (word_of_int lvl) @ Varint64 num)"
    by (simp add: put_defs)
  from tagged_truncated [OF _ this assms(4)] obtain q' where q: "q = Varint32 kDeletedSentinelFile @ q'"
    and p: "strict_prefix q' (Varint32 (word_of_int lvl) @ Varint64 num)"
    by (auto simp: tag_defs)
  from assms(2) Item_DeletedSentinelFile have "in_levels X lvl" by simp_all
  from level_number_truncated [OF assms(1) this p] show ?thesis
    by (simp add: q DecodeFrom_loop_tagged DecodeFrom_switch_def failed_def tag_defs)
qed

lemma distinct_deleted_levels_take:
  assumes "distinct (deleted_levels its)"
  shows "distinct (deleted_levels (take k its))"
proof -
  have "deleted_levels its = deleted_levels (take k its) @ deleted_levels (drop k its)"
    using deleted_levels_append [of "take k its" "drop k its"] by simp
  with assms show ?thesis by simp
qed

lemma decode_prefix:
  assumes "levels_ok X" "\<forall>it \<in> set its. item_ok X it" "distinct (deleted_levels its)"
    "strict_prefix p (concat (map item_bytes its))"
  shows "\<exists>st e'. DecodeFrom X p (VersionEdit_new X) = Inr (st, e')
           \<and> (st = OK \<longleftrightarrow> (\<exists>k. p = concat (map item_bytes (take k its))))
           \<and> (st \<noteq> OK \<longrightarrow> (\<exists>msg. st = Corruption ''VersionEdit'' msg))"
proof -
  from strict_prefix_concat [OF assms(4)] obtain k q where k: "k < length its"
    and p: "p = concat (map item_bytes (take k its)) @ q"
    and q: "strict_prefix q (item_bytes (its ! k))"
    by (auto simp: take_map)
  let ?d = "\<lparr>d_edit = VersionEdit_new X, d_g = FenceMetaData_init,
             d_tag2 = None, d_fnumber = None\<rparr>"
  have pf: "plain_fence (d_g ?d)" by (simp add: plain_fence_def FenceMetaData_init_def)
  have ok: "\<forall>it \<in> set (take k its). item_ok X it"
    using assms(2) by (auto dest: in_set_takeD)
  have n: "set (deleted_levels (take k its)) \<inter> fst ` set (deleted_fences (d_edit ?d)) = {}"
    by simp
  have l: "DecodeFrom_loop X ?d p = DecodeFrom_loop X (fold (decode_item X) (take k its) ?d) q"
    unfolding p
    by (rule DecodeFrom_loop_items
              [OF assms(1) ok pf distinct_deleted_levels_take [OF assms(3)] n])
  show ?thesis
  proof (cases "q = []")
    case True
    with l have "DecodeFrom X p (VersionEdit_new X)
                   = Inr (OK, d_edit (fold (decode_item X) (take k its) ?d))"
      by (simp add: DecodeFrom_def)
    moreover from True p have "\<exists>k. p = concat (map item_bytes (take k its))" by auto
    ultimately show ?thesis by simp
  next
    case False
    from k assms(2) have "item_ok X (its ! k)" by simp
    from DecodeFrom_loop_truncated [OF assms(1) this q False] obtain msg r d' where
      "DecodeFrom_loop X (fold (decode_item X) (take k its) ?d) q = Inr (Some msg, r, d')"
      by blast
    with l have c: "DecodeFrom X p (VersionEdit_new X)
                      = Inr (Corruption ''VersionEdit'' msg, d_edit d')"
      by (simp add: DecodeFrom_def)
    have "\<not> (\<exists>j. p = concat (map item_bytes (take j its)))"
    proof
      assume "\<exists>j. p = concat (map item_bytes (take j its))"
      then obtain j where j: "p = concat (map item_bytes (take j its))" ..
      have "\<forall>it \<in> set (take j its). item_ok X it"
        using assms(2) by (auto dest: in_set_takeD)
      from decode_items [OF assms(1) this distinct_deleted_levels_take [OF assms(3)]] j c
      show False by simp
    qed
    with c show ?thesis by simp
  qed
qed

text \<open>
  Claim C7, as the code has it.  For an edit built by calls that return, with levels, keys
  and lengths as in claim C1, and a proper prefix of its encoding, \<open>DecodeFrom\<close> returns a status: \<open>OK\<close> exactly when the prefix ends where a
  record of the encoding ends (it is the encoding of the first \<open>k\<close> records), and a
  \<open>Corruption\<close> otherwise.
\<close>

theorem proper_prefix_decode:
  assumes "levels_ok X" "\<forall>c \<in> set cs. edit_call_ok X c"
    "apply_edit_calls X cs (VersionEdit_new X) = Inr e"
    "strict_prefix p (EncodeTo X e [])"
  shows "\<exists>st e'. DecodeFrom X p (VersionEdit_new X) = Inr (st, e')
           \<and> (st = OK \<longleftrightarrow> (\<exists>k. p = concat (map item_bytes (take k (items_of X e)))))
           \<and> (st \<noteq> OK \<longrightarrow> (\<exists>msg. st = Corruption ''VersionEdit'' msg))"
proof -
  from edit_inv_calls [OF edit_inv_new assms(2,3)] have i: "edit_inv X e" .
  from decode_prefix [OF assms(1) edit_inv_items [OF i] edit_inv_distinct [OF i]] assms(4)
  show ?thesis by (simp add: EncodeTo_items)
qed

lemma encode_two_numbers:
  "EncodeTo X_example (SetNextFile 2 (SetLogNumber 1 (VersionEdit_new X_example))) []
     = [2, 1, 3, 2]"
proof -
  have v: "Varint32 2 = [2]" "Varint32 3 = [3]" "Varint64 1 = [1]" "Varint64 2 = [2]"
    by (simp_all add: Varint32_def Varint64_def varint_enc.simps byte_of_def)
  show ?thesis
    by (simp add: EncodeTo_items items_of_def SetNextFile_def SetLogNumber_def VersionEdit_new_eq
                  tag_defs put_defs v)
qed

theorem proper_prefix_decode_witness:
  "\<exists>st e'. DecodeFrom X_example [2, 1, 3] (VersionEdit_new X_example) = Inr (st, e')
     \<and> (st = OK \<longleftrightarrow>
          (\<exists>k. [2, 1, 3] = concat (map item_bytes (take k
                  (items_of X_example (SetNextFile 2 (SetLogNumber 1 (VersionEdit_new X_example))))))))
     \<and> (st \<noteq> OK \<longrightarrow> (\<exists>msg. st = Corruption ''VersionEdit'' msg))"
  using proper_prefix_decode [OF levels_ok_example,
          of "[Call_SetLogNumber 1, Call_SetNextFile 2]"
             "SetNextFile 2 (SetLogNumber 1 (VersionEdit_new X_example))" "[2, 1, 3]"]
  by (simp add: encode_two_numbers)

theorem proper_prefix_decode_counterexample:
  "apply_edit_calls X_example [Call_SetLogNumber 1, Call_SetNextFile 2] (VersionEdit_new X_example)
     = Inr (SetNextFile 2 (SetLogNumber 1 (VersionEdit_new X_example)))
   \<and> EncodeTo X_example (SetNextFile 2 (SetLogNumber 1 (VersionEdit_new X_example))) []
     = [2, 1, 3, 2]
   \<and> DecodeFrom X_example [2, 1] (VersionEdit_new X_example)
     = Inr (OK, SetLogNumber 1 (VersionEdit_new X_example))"
proof -
  have "DecodeFrom X_example [2, 1] (VersionEdit_new X_example)
          = Inr (OK, SetLogNumber 1 (VersionEdit_new X_example))"
    by (simp add: DecodeFrom_def DecodeFrom_loop.simps [of _ _ "_ # _"] GetVarint32_byte
                  GetVarint64_byte DecodeFrom_switch_def tag_defs SetLogNumber_def)
  with encode_two_numbers show ?thesis by simp
qed


end
